theory Spec2Isabelle
  imports Main "HOL-Library.Sublist"
begin

section \<open>Characters and strings\<close>

text \<open>
  A Python \<open>str\<close> is a sequence of code points. The model uses HOL's \<open>string\<close>; a
  \<open>char\<close> stands for the code point of the same number, so the model covers the strings
  over U+0000 .. U+00FF. The classifications below are those of Python's \<open>str\<close>
  methods and of the \<open>re\<close> module (Unicode matching, the default for \<open>str\<close> patterns)
  restricted to that range.
\<close>

definition code :: "char \<Rightarrow> nat" where
  "code c = of_char c"

text \<open>\<open>\d\<close>: the decimal digits.\<close>

definition is_digit :: "char \<Rightarrow> bool" where
  "is_digit c = (48 \<le> code c \<and> code c \<le> 57)"

text \<open>\<open>\s\<close> and \<open>str.isspace\<close>: tab, LF, VT, FF, CR, FS, GS, RS, US, space, NEL, NBSP.\<close>

definition is_space :: "char \<Rightarrow> bool" where
  "is_space c = ((9 \<le> code c \<and> code c \<le> 13) \<or> (28 \<le> code c \<and> code c \<le> 32)
      \<or> code c = 133 \<or> code c = 160)"

definition is_upper_ascii :: "char \<Rightarrow> bool" where
  "is_upper_ascii c = (65 \<le> code c \<and> code c \<le> 90)"

definition is_lower_ascii :: "char \<Rightarrow> bool" where
  "is_lower_ascii c = (97 \<le> code c \<and> code c \<le> 122)"

text \<open>\<open>\w\<close>: alphanumeric code points and the underscore.\<close>

definition is_word :: "char \<Rightarrow> bool" where
  "is_word c = (is_digit c \<or> is_upper_ascii c \<or> is_lower_ascii c \<or> code c = 95
      \<or> code c \<in> {170, 178, 179, 181, 185, 186, 188, 189, 190}
      \<or> (192 \<le> code c \<and> code c \<noteq> 215 \<and> code c \<noteq> 247))"

text \<open>\<open>str.lower\<close> on one code point: A-Z and the Latin-1 capitals move up by 32.\<close>

definition lower_chr :: "char \<Rightarrow> char" where
  "lower_chr c = (if is_upper_ascii c \<or> (192 \<le> code c \<and> code c \<le> 222 \<and> code c \<noteq> 215)
      then char_of (code c + 32) else c)"

definition lower :: "string \<Rightarrow> string" where
  "lower s = map lower_chr s"

text \<open>\<open>str.strip()\<close>: leading and trailing whitespace removed.\<close>

definition strip :: "string \<Rightarrow> string" where
  "strip s = rev (dropWhile is_space (rev (dropWhile is_space s)))"

text \<open>\<open>pat in s\<close>: \<open>pat\<close> occurs in \<open>s\<close> as a contiguous substring.\<close>

fun contains :: "string \<Rightarrow> string \<Rightarrow> bool" where
  "contains pat [] = (pat = [])"
| "contains pat (c # cs) = (prefix pat (c # cs) \<or> contains pat cs)"

section \<open>Regular expressions as the \<open>re\<close> module matches them\<close>

text \<open>
  The patterns of the program use literals, character classes, sequence, alternation,
  greedy and lazy repetition of a single-character class, an optional part, capturing
  groups, a backreference and the word boundary. The matcher is a backtracking matcher in
  continuation-passing style: alternatives are tried in the order \<open>re\<close> tries them, and
  the first complete match wins.
\<close>

datatype cset =
    AnyChar               \<comment> \<open>\<open>.\<close> under the \<open>s\<close> flag\<close>
  | Digit                 \<comment> \<open>\<open>\d\<close>\<close>
  | Space                 \<comment> \<open>\<open>\s\<close>\<close>
  | Word                  \<comment> \<open>\<open>\w\<close>\<close>
  | NoneOf string         \<comment> \<open>\<open>[^...]\<close>\<close>
  | OneOf string          \<comment> \<open>\<open>[...]\<close> of single characters\<close>
  | Between char char     \<comment> \<open>\<open>[a-b]\<close>\<close>
  | AlnumAscii            \<comment> \<open>\<open>[a-z0-9]\<close>\<close>

datatype rx =
    Eps                   \<comment> \<open>the empty pattern\<close>
  | Chr char
  | Cls cset
  | Seq rx rx
  | Alt rx rx
  | Rep bool nat cset     \<comment> \<open>greedy?, minimum count, class: \<open>\s*\<close>, \<open>\d+\<close>, \<open>.*?\<close>\<close>
  | Opt rx                \<comment> \<open>\<open>r?\<close>\<close>
  | Grp nat rx            \<comment> \<open>capturing group number \<open>n\<close>\<close>
  | Ref nat               \<comment> \<open>\<open>\n\<close>\<close>
  | Wb                    \<comment> \<open>\<open>\b\<close>\<close>

text \<open>A pattern written as a sequence of parts, literal text, a list of alternatives.\<close>

fun seqs :: "rx list \<Rightarrow> rx" where
  "seqs [] = Eps"
| "seqs (r # rs) = Seq r (seqs rs)"

definition lit :: "string \<Rightarrow> rx" where
  "lit s = seqs (map Chr s)"

fun alts :: "rx list \<Rightarrow> rx" where
  "alts [] = Eps"
| "alts [r] = r"
| "alts (r # rs) = Alt r (alts rs)"

text \<open>
  Character tests. Under the \<open>i\<close> flag a literal matches when the lowercased characters
  agree, and a class is tested on the lowercased character.
\<close>

definition chr_eq :: "bool \<Rightarrow> char \<Rightarrow> char \<Rightarrow> bool" where
  "chr_eq ic a c = (if ic then lower_chr a = lower_chr c else a = c)"

fun in_cset :: "cset \<Rightarrow> char \<Rightarrow> bool" where
  "in_cset AnyChar c = True"
| "in_cset Digit c = is_digit c"
| "in_cset Space c = is_space c"
| "in_cset Word c = is_word c"
| "in_cset (NoneOf cs) c = (c \<notin> set cs)"
| "in_cset (OneOf cs) c = (c \<in> set cs)"
| "in_cset (Between a b) c = (code a \<le> code c \<and> code c \<le> code b)"
| "in_cset AlnumAscii c = (is_lower_ascii c \<or> is_digit c)"

definition cls_ok :: "bool \<Rightarrow> cset \<Rightarrow> char \<Rightarrow> bool" where
  "cls_ok ic p c = in_cset p (if ic then lower_chr c else c)"

text \<open>
  The state of a match in progress: the character before the current position (for
  \<open>\b\<close>), the groups captured so far, and the text not yet consumed.
\<close>

datatype mst = MSt (prev: "char option") (grps: "(nat \<times> string) list") (rest: string)

definition orelse :: "'a option \<Rightarrow> 'a option \<Rightarrow> 'a option" where
  "orelse a b = (case a of Some x \<Rightarrow> Some x | None \<Rightarrow> b)"

text \<open>Greedy repetition takes a further character first and gives it back on failure.\<close>

fun rep_greedy :: "bool \<Rightarrow> cset \<Rightarrow> nat \<Rightarrow> (nat \<times> string) list \<Rightarrow> char option \<Rightarrow> string
    \<Rightarrow> (mst \<Rightarrow> 'a option) \<Rightarrow> 'a option" where
  "rep_greedy ic p n g pv [] k = (if n = 0 then k (MSt pv g []) else None)"
| "rep_greedy ic p n g pv (c # cs) k =
     (if cls_ok ic p c
      then (case rep_greedy ic p (n - 1) g (Some c) cs k of
              Some x \<Rightarrow> Some x
            | None \<Rightarrow> if n = 0 then k (MSt pv g (c # cs)) else None)
      else if n = 0 then k (MSt pv g (c # cs)) else None)"

text \<open>Lazy repetition tries the rest of the pattern first and takes a character on failure.\<close>

fun rep_lazy :: "bool \<Rightarrow> cset \<Rightarrow> nat \<Rightarrow> (nat \<times> string) list \<Rightarrow> char option \<Rightarrow> string
    \<Rightarrow> (mst \<Rightarrow> 'a option) \<Rightarrow> 'a option" where
  "rep_lazy ic p n g pv [] k = (if n = 0 then k (MSt pv g []) else None)"
| "rep_lazy ic p n g pv (c # cs) k =
     (case (if n = 0 then k (MSt pv g (c # cs)) else None) of
        Some x \<Rightarrow> Some x
      | None \<Rightarrow> if cls_ok ic p c then rep_lazy ic p (n - 1) g (Some c) cs k else None)"

definition at_boundary :: "char option \<Rightarrow> string \<Rightarrow> bool" where
  "at_boundary pv s =
     ((case pv of None \<Rightarrow> False | Some c \<Rightarrow> is_word c)
        \<noteq> (case s of [] \<Rightarrow> False | c # _ \<Rightarrow> is_word c))"

fun prefix_ic :: "bool \<Rightarrow> string \<Rightarrow> string \<Rightarrow> bool" where
  "prefix_ic ic [] s = True"
| "prefix_ic ic (a # as) [] = False"
| "prefix_ic ic (a # as) (c # cs) = (chr_eq ic a c \<and> prefix_ic ic as cs)"

fun rxm :: "bool \<Rightarrow> rx \<Rightarrow> mst \<Rightarrow> (mst \<Rightarrow> 'a option) \<Rightarrow> 'a option" where
  "rxm ic Eps st k = k st"
| "rxm ic (Chr a) st k =
     (case rest st of [] \<Rightarrow> None
      | c # cs \<Rightarrow> if chr_eq ic a c then k (MSt (Some c) (grps st) cs) else None)"
| "rxm ic (Cls p) st k =
     (case rest st of [] \<Rightarrow> None
      | c # cs \<Rightarrow> if cls_ok ic p c then k (MSt (Some c) (grps st) cs) else None)"
| "rxm ic (Seq r1 r2) st k = rxm ic r1 st (\<lambda>st'. rxm ic r2 st' k)"
| "rxm ic (Alt r1 r2) st k = orelse (rxm ic r1 st k) (rxm ic r2 st k)"
| "rxm ic (Rep greedy n p) st k =
     (if greedy then rep_greedy ic p n (grps st) (prev st) (rest st) k
      else rep_lazy ic p n (grps st) (prev st) (rest st) k)"
| "rxm ic (Opt r) st k = orelse (rxm ic r st k) (k st)"
| "rxm ic (Grp n r) st k =
     rxm ic r st (\<lambda>st'. k (MSt (prev st')
        ((n, take (length (rest st) - length (rest st')) (rest st)) # grps st') (rest st')))"
| "rxm ic (Ref n) st k =
     (case map_of (grps st) n of None \<Rightarrow> None
      | Some g \<Rightarrow>
          if prefix_ic ic g (rest st)
          then k (MSt (if g = [] then prev st else Some (rest st ! (length g - 1))) (grps st)
                    (drop (length g) (rest st)))
          else None)"
| "rxm ic Wb st k = (if at_boundary (prev st) (rest st) then k st else None)"

text \<open>
  A match object: the matched text (\<open>group(0)\<close>) and the captured groups. \<open>match_at\<close>
  matches at the current position only, as \<open>re.match\<close> does at position 0 and as the
  scan of \<open>re.sub\<close> does at each position in turn.
\<close>

record mobj =
  group0 :: string
  groups :: "(nat \<times> string) list"

definition match_at :: "bool \<Rightarrow> rx \<Rightarrow> char option \<Rightarrow> string \<Rightarrow> mobj option" where
  "match_at ic r pv s =
     rxm ic r (MSt pv [] s)
       (\<lambda>st. Some \<lparr>group0 = take (length s - length (rest st)) s, groups = grps st\<rparr>)"

definition re_match :: "bool \<Rightarrow> rx \<Rightarrow> string \<Rightarrow> mobj option" where
  "re_match ic r s = match_at ic r None s"

definition group :: "mobj \<Rightarrow> nat \<Rightarrow> string" where
  "group m n = (case map_of (groups m) n of Some g \<Rightarrow> g | None \<Rightarrow> [])"

text \<open>
  \<open>re.sub(pattern, repl, s)\<close> with a function \<open>repl\<close>: scan from the left; at the
  leftmost position where the pattern matches, emit \<open>repl\<close> of the match and go on after
  the match; characters in no match are copied. After an empty match one character is
  copied (no pattern of this program matches the empty string).
\<close>

function sub_from :: "(char option \<Rightarrow> string \<Rightarrow> mobj option) \<Rightarrow> (mobj \<Rightarrow> string)
    \<Rightarrow> char option \<Rightarrow> string \<Rightarrow> string" where
  "sub_from m repl pv [] = (case m pv [] of None \<Rightarrow> [] | Some mo \<Rightarrow> repl mo)"
| "sub_from m repl pv (c # cs) =
     (case m pv (c # cs) of
        None \<Rightarrow> c # sub_from m repl (Some c) cs
      | Some mo \<Rightarrow>
          (let n = length (group0 mo) in
           if n = 0 then repl mo @ c # sub_from m repl (Some c) cs
           else repl mo @ sub_from m repl (Some ((c # cs) ! (min n (length cs + 1) - 1)))
                            (drop n (c # cs))))"
  by pat_completeness auto
termination
  by (relation "measure (\<lambda>(m, repl, pv, s). length s)") auto

definition re_sub :: "bool \<Rightarrow> rx \<Rightarrow> (mobj \<Rightarrow> string) \<Rightarrow> string \<Rightarrow> string" where
  "re_sub ic r repl s = sub_from (match_at ic r) repl None s"

section \<open>The markup sanitizer\<close>

text \<open>\<^verbatim>\<open>(?is)<\s*script.*?>.*?<\s*/\s*script\s*>\<close>\<close>

definition script_rx :: rx where
  "script_rx = seqs [Chr CHR ''<'', Rep True 0 Space, lit ''script'', Rep False 0 AnyChar,
     Chr CHR ''>'', Rep False 0 AnyChar, Chr CHR ''<'', Rep True 0 Space, Chr CHR ''/'',
     Rep True 0 Space, lit ''script'', Rep True 0 Space, Chr CHR ''>'']"

text \<open>\<^verbatim>\<open>(?is)\s+on\w+\s*=\s*(['"]).*?\1\<close>\<close>

definition handler_rx :: rx where
  "handler_rx = seqs [Rep True 1 Space, lit ''on'', Rep True 1 Word, Rep True 0 Space,
     Chr CHR ''='', Rep True 0 Space, Grp 1 (Cls (OneOf [CHR 0x27, CHR 0x22])),
     Rep False 0 AnyChar, Ref 1]"

text \<open>\<^verbatim>\<open>(?i)href\s*=\s*(['"])\s*javascript:[^'"]*\1\<close>\<close>

definition jshref_rx :: rx where
  "jshref_rx = seqs [lit ''href'', Rep True 0 Space, Chr CHR ''='', Rep True 0 Space,
     Grp 1 (Cls (OneOf [CHR 0x27, CHR 0x22])), Rep True 0 Space, lit ''javascript:'',
     Rep True 0 (NoneOf [CHR 0x27, CHR 0x22]), Ref 1]"

text \<open>\<^verbatim>\<open>(?is)</?([a-z0-9]+)(?:\s[^>]*)?>\<close>\<close>

definition tag_rx :: rx where
  "tag_rx = seqs [Chr CHR ''<'', Opt (Chr CHR ''/''), Grp 1 (Rep True 1 AlnumAscii),
     Opt (seqs [Cls Space, Rep True 0 (NoneOf ''>'')]), Chr CHR ''>'']"

text \<open>\<^verbatim>\<open>(?i)<a\b([^>]*)>\<close>\<close>

definition anchor_rx :: rx where
  "anchor_rx = seqs [Chr CHR ''<'', Chr CHR ''a'', Wb, Grp 1 (Rep True 0 (NoneOf ''>'')),
     Chr CHR ''>'']"

definition allowed :: "string list" where
  "allowed = [''ul'', ''li'', ''a'', ''strong'', ''em'', ''code'', ''br'']"

definition keep_or_strip :: "mobj \<Rightarrow> string" where
  "keep_or_strip m = (let tag = lower (group m 1) in if tag \<in> set allowed then group0 m else [])"

definition target_attr :: string where
  "target_attr = '' target='' @ [CHR 0x22] @ ''_blank'' @ [CHR 0x22]"

definition rel_attr :: string where
  "rel_attr = '' rel='' @ [CHR 0x22] @ ''noopener'' @ [CHR 0x22]"

text \<open>\<open>fix_link\<close> on the matched text \<open>m.group(0)\<close>; \<open>tag[:-1]\<close> is \<open>butlast tag\<close>.\<close>

definition fix_link :: "string \<Rightarrow> string" where
  "fix_link tag0 =
     (let tag = (if \<not> contains ''target='' tag0 then butlast tag0 @ target_attr @ ''>'' else tag0);
          tag = (if \<not> contains ''rel='' tag then butlast tag @ rel_attr @ ''>'' else tag)
      in tag)"

definition href_hash :: string where
  "href_hash = ''href='' @ [CHR 0x22] @ ''#'' @ [CHR 0x22]"

definition basic_sanitize_ul :: "string \<Rightarrow> string" where
  "basic_sanitize_ul html_fragment =
     (if html_fragment = [] then ''<ul></ul>''
      else
        let s = html_fragment;
            s = re_sub True script_rx (\<lambda>m. []) s;
            s = re_sub True handler_rx (\<lambda>m. []) s;
            s = re_sub True jshref_rx (\<lambda>m. href_hash) s;
            s = re_sub True tag_rx keep_or_strip s;
            s = re_sub True anchor_rx (\<lambda>m. fix_link (group0 m)) s
        in s)"

section \<open>Integers, dates and \<open>strptime\<close>\<close>

datatype error = ValueError

text \<open>
  \<open>int(s)\<close> on the texts the program passes to it (a run of decimal digits, possibly
  after a blank): surrounding whitespace is dropped, anything but a non-empty run of digits
  raises \<open>ValueError\<close>, and so does a run of more than 4300 digits (CPython's default
  limit for the conversion of a decimal string, leading zeros included).
\<close>

definition digit_val :: "char \<Rightarrow> int" where
  "digit_val c = int (code c) - 48"

definition digits_val :: "string \<Rightarrow> int" where
  "digits_val ds = foldl (\<lambda>acc c. 10 * acc + digit_val c) 0 ds"

definition int_max_str_digits :: nat where
  "int_max_str_digits = 4300"

definition py_int :: "string \<Rightarrow> error + int" where
  "py_int s =
     (let t = strip s in
      if t = [] \<or> \<not> list_all is_digit t then Inl ValueError
      else if length t > int_max_str_digits then Inl ValueError
      else Inr (digits_val t))"

text \<open>A naive \<open>datetime\<close>, its proleptic Gregorian ordinal, and \<open>(a - b).days\<close>.\<close>

record datetime =
  year :: int
  month :: int
  day :: int
  hour :: int
  minute :: int
  second :: int
  microsecond :: int

definition is_leap :: "int \<Rightarrow> bool" where
  "is_leap y = (y mod 4 = 0 \<and> (y mod 100 \<noteq> 0 \<or> y mod 400 = 0))"

definition days_in_month :: "int \<Rightarrow> int \<Rightarrow> int" where
  "days_in_month y m =
     (if m = 2 \<and> is_leap y then 29
      else [31, 28, 31, 30, 31, 30, 31, 31, 30, 31, 30, 31] ! nat (m - 1))"

definition days_before_year :: "int \<Rightarrow> int" where
  "days_before_year y = (y - 1) * 365 + (y - 1) div 4 - (y - 1) div 100 + (y - 1) div 400"

definition days_before_month :: "int \<Rightarrow> int \<Rightarrow> int" where
  "days_before_month y m =
     [0, 31, 59, 90, 120, 151, 181, 212, 243, 273, 304, 334] ! nat (m - 1)
       + (if m > 2 \<and> is_leap y then 1 else 0)"

definition toordinal :: "datetime \<Rightarrow> int" where
  "toordinal d = days_before_year (year d) + days_before_month (year d) (month d) + day d"

definition valid_time :: "datetime \<Rightarrow> bool" where
  "valid_time d = (0 \<le> hour d \<and> hour d < 24 \<and> 0 \<le> minute d \<and> minute d < 60
      \<and> 0 \<le> second d \<and> second d < 60 \<and> 0 \<le> microsecond d \<and> microsecond d < 1000000)"

text \<open>
  \<open>(a - b).days\<close>: the difference is \<open>timedelta(days, seconds, microseconds)\<close> of the
  three field differences, normalised with floor division.
\<close>

definition sub_days :: "datetime \<Rightarrow> datetime \<Rightarrow> int" where
  "sub_days a b =
     (let days = toordinal a - toordinal b;
          secs = (second a + minute a * 60 + hour a * 3600)
                   - (second b + minute b * 60 + hour b * 3600);
          us = microsecond a - microsecond b
      in days + (secs + us div 1000000) div 86400)"

text \<open>
  \<open>datetime.strptime(data, fmt)\<close> as CPython's \<open>_strptime\<close> does it: the format is
  turned into a regular expression (a run of whitespace becomes \<open>\s+\<close>, a directive its
  own pattern, any other character itself), matched ignoring case at the start of the
  data; the match has to cover all of the data; the fields are converted and the date has
  to exist. Month names are those of the C locale. Every failure is a \<open>ValueError\<close>.
\<close>

definition a_month :: "string list" where
  "a_month = [[], ''jan'', ''feb'', ''mar'', ''apr'', ''may'', ''jun'', ''jul'', ''aug'',
     ''sep'', ''oct'', ''nov'', ''dec'']"

definition f_month :: "string list" where
  "f_month = [[], ''january'', ''february'', ''march'', ''april'', ''may'', ''june'', ''july'',
     ''august'', ''september'', ''october'', ''november'', ''december'']"

text \<open>The names as alternatives, longest first (a stable sort by length, empty name left out).\<close>

fun insert_by_len :: "string \<Rightarrow> string list \<Rightarrow> string list" where
  "insert_by_len x [] = [x]"
| "insert_by_len x (y # ys) = (if length x > length y then x # y # ys else y # insert_by_len x ys)"

definition seq_to_re :: "string list \<Rightarrow> rx" where
  "seq_to_re names = alts (map lit (foldr insert_by_len (filter (\<lambda>n. n \<noteq> []) names) []))"

text \<open>Group numbers stand for the group names: 1 = \<open>b\<close>, 2 = \<open>d\<close>, 3 = \<open>Y\<close>, 4 = \<open>B\<close>.\<close>

definition directive :: "char \<Rightarrow> rx" where
  "directive c =
     (if c = CHR ''b'' then Grp 1 (seq_to_re a_month)
      else if c = CHR ''B'' then Grp 4 (seq_to_re f_month)
      else if c = CHR ''d'' then
        Grp 2 (alts [Seq (Chr CHR ''3'') (Cls (Between CHR ''0'' CHR ''1'')),
                     Seq (Cls (Between CHR ''1'' CHR ''2'')) (Cls Digit),
                     Seq (Chr CHR ''0'') (Cls (Between CHR ''1'' CHR ''9'')),
                     Cls (Between CHR ''1'' CHR ''9''),
                     Seq (Chr CHR '' '') (Cls (Between CHR ''1'' CHR ''9''))])
      else if c = CHR ''Y'' then Grp 3 (seqs [Cls Digit, Cls Digit, Cls Digit, Cls Digit])
      else Chr c)"

fun format_parts :: "string \<Rightarrow> rx list" where
  "format_parts [] = []"
| "format_parts [c] = (if is_space c then [Rep True 1 Space] else [Chr c])"
| "format_parts (c # d # cs) =
     (if c = CHR ''%'' then directive d # format_parts cs
      else if is_space c then
        (if is_space d then format_parts (d # cs) else Rep True 1 Space # format_parts (d # cs))
      else Chr c # format_parts (d # cs))"

definition format_rx :: "string \<Rightarrow> rx" where
  "format_rx fmt = seqs (format_parts fmt)"

fun index_of :: "'a \<Rightarrow> 'a list \<Rightarrow> nat option" where
  "index_of x [] = None"
| "index_of x (y # ys) = (if x = y then Some 0 else map_option Suc (index_of x ys))"

definition month_of :: "mobj \<Rightarrow> error + int" where
  "month_of m =
     (case map_of (groups m) 4 of
        Some t \<Rightarrow> (case index_of (lower t) f_month of None \<Rightarrow> Inl ValueError | Some i \<Rightarrow> Inr (int i))
      | None \<Rightarrow>
          (case map_of (groups m) 1 of
             Some t \<Rightarrow> (case index_of (lower t) a_month of None \<Rightarrow> Inl ValueError | Some i \<Rightarrow> Inr (int i))
           | None \<Rightarrow> Inr 1))"

definition field_of :: "mobj \<Rightarrow> nat \<Rightarrow> int \<Rightarrow> error + int" where
  "field_of m n dflt = (case map_of (groups m) n of Some t \<Rightarrow> py_int t | None \<Rightarrow> Inr dflt)"

definition make_date :: "int \<Rightarrow> int \<Rightarrow> int \<Rightarrow> error + datetime" where
  "make_date y m d =
     (if 1 \<le> y \<and> y \<le> 9999 \<and> 1 \<le> m \<and> m \<le> 12 \<and> 1 \<le> d \<and> d \<le> days_in_month y m
      then Inr \<lparr>year = y, month = m, day = d, hour = 0, minute = 0, second = 0, microsecond = 0\<rparr>
      else Inl ValueError)"

definition strptime :: "string \<Rightarrow> string \<Rightarrow> error + datetime" where
  "strptime data fmt =
     (case re_match True (format_rx fmt) data of
        None \<Rightarrow> Inl ValueError
      | Some m \<Rightarrow>
          if length data \<noteq> length (group0 m) then Inl ValueError
          else (case field_of m 3 1900 of Inl e \<Rightarrow> Inl e
                | Inr y \<Rightarrow> (case month_of m of Inl e \<Rightarrow> Inl e
                | Inr mo \<Rightarrow> (case field_of m 2 1 of Inl e \<Rightarrow> Inl e
                | Inr d \<Rightarrow> make_date y mo d))))"

section \<open>The recency classifier\<close>

text \<open>\<^verbatim>\<open>\d+\s*(minute|min|minutes|mins)\s*ago\<close>\<close>

definition minute_rx :: rx where
  "minute_rx = seqs [Rep True 1 Digit, Rep True 0 Space,
     Grp 1 (alts [lit ''minute'', lit ''min'', lit ''minutes'', lit ''mins'']),
     Rep True 0 Space, lit ''ago'']"

text \<open>\<^verbatim>\<open>\d+\s*(hour|hr|hours|hrs)\s*ago\<close>\<close>

definition hour_rx :: rx where
  "hour_rx = seqs [Rep True 1 Digit, Rep True 0 Space,
     Grp 1 (alts [lit ''hour'', lit ''hr'', lit ''hours'', lit ''hrs'']),
     Rep True 0 Space, lit ''ago'']"

text \<open>\<^verbatim>\<open>(\d+)\s*(day|days)\s*ago\<close>\<close>

definition day_rx :: rx where
  "day_rx = seqs [Grp 1 (Rep True 1 Digit), Rep True 0 Space,
     Grp 2 (alts [lit ''day'', lit ''days'']), Rep True 0 Space, lit ''ago'']"

text \<open>\<^verbatim>\<open>(\d+)\s*(week|weeks)\s*ago\<close>\<close>

definition week_rx :: rx where
  "week_rx = seqs [Grp 1 (Rep True 1 Digit), Rep True 0 Space,
     Grp 2 (alts [lit ''week'', lit ''weeks'']), Rep True 0 Space, lit ''ago'']"

definition formats :: "string list" where
  "formats = [''%b %d, %Y'', ''%B %d, %Y'', ''%b. %d, %Y'']"

text \<open>
  The loop over the formats: the first format that parses decides; a \<open>ValueError\<close> moves
  on to the next format; after the last one the result is \<open>False\<close>.
\<close>

fun try_formats :: "datetime \<Rightarrow> string \<Rightarrow> string list \<Rightarrow> error + bool" where
  "try_formats now data [] = Inr False"
| "try_formats now data (fmt # fmts) =
     (case strptime data fmt of
        Inr when \<Rightarrow> Inr (sub_days now when \<le> 7)
      | Inl ValueError \<Rightarrow> try_formats now data fmts)"

text \<open>
  \<open>within_past_week\<close>; the clock reading \<open>dt.now()\<close> is the parameter \<open>now\<close>. An
  exception that leaves the function is the result \<open>Inl\<close>.
\<close>

definition within_past_week :: "datetime \<Rightarrow> string \<Rightarrow> error + bool" where
  "within_past_week now date_str =
     (if date_str = [] then Inr False
      else
        let s = lower (strip date_str) in
        if contains ''yesterday'' s then Inr True
        else if re_match False minute_rx s \<noteq> None then Inr True
        else if re_match False hour_rx s \<noteq> None then Inr True
        else
          (case re_match False day_rx s of
             Some m \<Rightarrow> (case py_int (group m 1) of Inl e \<Rightarrow> Inl e | Inr n \<Rightarrow> Inr (n \<le> 7))
           | None \<Rightarrow>
               (case re_match False week_rx s of
                  Some m \<Rightarrow> (case py_int (group m 1) of Inl e \<Rightarrow> Inl e | Inr n \<Rightarrow> Inr (n \<le> 1))
                | None \<Rightarrow> try_formats now (strip date_str) formats)))"

section \<open>Notions used in the statements and proofs\<close>

text \<open>
  \<open>needs_chr x r\<close>: every text matched by \<open>r\<close> holds the character \<open>x\<close> (a sufficient
  syntactic test); \<open>caseless x\<close>: no other character agrees with \<open>x\<close> when case is ignored.
\<close>

fun needs_chr :: "char \<Rightarrow> rx \<Rightarrow> bool" where
  "needs_chr x Eps = False"
| "needs_chr x (Chr a) = (a = x)"
| "needs_chr x (Cls p) = False"
| "needs_chr x (Seq r1 r2) = (needs_chr x r1 \<or> needs_chr x r2)"
| "needs_chr x (Alt r1 r2) = (needs_chr x r1 \<and> needs_chr x r2)"
| "needs_chr x (Rep gr n p) = False"
| "needs_chr x (Opt r) = False"
| "needs_chr x (Grp n r) = needs_chr x r"
| "needs_chr x (Ref n) = False"
| "needs_chr x Wb = False"

definition caseless :: "char \<Rightarrow> bool" where
  "caseless x = (\<forall>c. lower_chr c = lower_chr x \<longrightarrow> c = x)"

text \<open>
  The fragments of the idempotence claim: none of the three removal patterns matches
  anywhere; every tag the tag pattern finds is allowlisted; every anchor the anchor
  pattern finds holds \<open>target=\<close> and \<open>rel=\<close>.
\<close>

definition pattern_free :: "rx \<Rightarrow> string \<Rightarrow> bool" where
  "pattern_free r x = list_all (\<lambda>t. match_at True r None t = None) (suffixes x)"

definition allowlist_only :: "string \<Rightarrow> bool" where
  "allowlist_only x = list_all (\<lambda>t.
     case match_at True tag_rx None t of None \<Rightarrow> True
     | Some m \<Rightarrow> lower (group m 1) \<in> set allowed) (suffixes x)"

definition attribute_complete :: "string \<Rightarrow> bool" where
  "attribute_complete x = list_all (\<lambda>t.
     case match_at True anchor_rx None t of None \<Rightarrow> True
     | Some m \<Rightarrow> contains ''target='' (group0 m) \<and> contains ''rel='' (group0 m)) (suffixes x)"

text \<open>
  The character before a position after a run of text; the number of occurrences of a text
  in a text.
\<close>

definition lastc :: "char option \<Rightarrow> string \<Rightarrow> char option" where
  "lastc pv xs = (if xs = [] then pv else Some (last xs))"

fun count_sub :: "string \<Rightarrow> string \<Rightarrow> nat" where
  "count_sub pat [] = (if pat = [] then 1 else 0)"
| "count_sub pat (c # cs) = (if prefix pat (c # cs) then 1 else 0) + count_sub pat cs"

text \<open>
  The fragment after the allowlist step: the value of \<open>s\<close> after the first four
  substitutions of \<open>basic_sanitize_ul\<close>, before the anchors are rewritten.
\<close>

definition allowlist_step :: "string \<Rightarrow> string" where
  "allowlist_step html_fragment =
     (let s = html_fragment;
          s = re_sub True script_rx (\<lambda>m. []) s;
          s = re_sub True handler_rx (\<lambda>m. []) s;
          s = re_sub True jshref_rx (\<lambda>m. href_hash) s;
          s = re_sub True tag_rx keep_or_strip s
      in s)"

text \<open>
  Anchor tags in a text, as the pattern \<open><a\b([^>]*)>\<close> delimits them. \<open>anchor_at t\<close>:
  an anchor tag starts at the head of \<open>t\<close> (\<open><\<close>, then \<open>a\<close> or \<open>A\<close>, then a character
  that is no word character, and a \<open>>\<close> somewhere from there on). \<open>anchor_free p aft\<close>:
  no anchor tag starts at a position inside \<open>p\<close> when \<open>aft\<close> follows it.
  \<open>is_anchor_tag t\<close>: \<open>t\<close> is one whole anchor tag, its only \<open>>\<close> being its last
  character. \<open>weave segs fin\<close>: the text made of the pairs (text, tag) of \<open>segs\<close> in order and
  then \<open>fin\<close>; \<open>anchors_in segs fin\<close>: the tags of \<open>segs\<close> are all the anchor tags of that
  text, each after a text in which no anchor tag starts.
\<close>

fun anchor_at :: "string \<Rightarrow> bool" where
  "anchor_at (c # d # e # r) =
     (c = CHR ''<'' \<and> lower_chr d = CHR ''a'' \<and> \<not> is_word e \<and> CHR ''>'' \<in> set (e # r))"
| "anchor_at cs = False"

fun anchor_free :: "string \<Rightarrow> string \<Rightarrow> bool" where
  "anchor_free [] aft = True"
| "anchor_free (c # cs) aft = (\<not> anchor_at (c # cs @ aft) \<and> anchor_free cs aft)"

fun is_anchor_tag :: "string \<Rightarrow> bool" where
  "is_anchor_tag (c # d # e # r) =
     (c = CHR ''<'' \<and> (d = CHR ''a'' \<or> d = CHR ''A'') \<and> \<not> is_word e
        \<and> last (e # r) = CHR ''>'' \<and> CHR ''>'' \<notin> set (butlast (e # r)))"
| "is_anchor_tag cs = False"

fun weave :: "(string \<times> string) list \<Rightarrow> string \<Rightarrow> string" where
  "weave [] fin = fin"
| "weave ((p, t) # segs) fin = p @ t @ weave segs fin"

fun anchors_in :: "(string \<times> string) list \<Rightarrow> string \<Rightarrow> bool" where
  "anchors_in [] fin = anchor_free fin []"
| "anchors_in ((p, t) # segs) fin =
     (anchor_free p (t @ weave segs fin) \<and> is_anchor_tag t \<and> anchors_in segs fin)"

text \<open>
  The closed form of the four counted patterns at the start of a text: a non-empty run of
  digits, optional whitespace, one of the unit words, optional whitespace, \<open>ago\<close>.
  \<open>u_of s\<close> is what follows the digits and the whitespace; the first unit word in the
  order of the pattern that is followed there by whitespace and \<open>ago\<close> is the one the
  matcher takes.
\<close>

definition ago_tail :: rx where
  "ago_tail = seqs [Rep True 0 Space, lit ''ago'']"

definition unit_at :: "string \<Rightarrow> string \<Rightarrow> bool" where
  "unit_at w u = (prefix w u \<and> prefix ''ago'' (dropWhile is_space (drop (length w) u)))"

definition u_of :: "string \<Rightarrow> string" where
  "u_of s = dropWhile is_space (dropWhile is_digit s)"

definition counted :: "string list \<Rightarrow> string \<Rightarrow> bool" where
  "counted units s = (takeWhile is_digit s \<noteq> [] \<and> find (\<lambda>w. unit_at w (u_of s)) units \<noteq> None)"

text \<open>
  The texts a pattern can consume, whatever the continuation does with the rest (a
  backreference is not followed: it may consume anything), and the characters that can
  occur in such a text. Both are used to bound what \<open>strptime\<close> accepts.
\<close>

fun lang :: "bool \<Rightarrow> rx \<Rightarrow> string \<Rightarrow> bool" where
  "lang ic Eps p = (p = [])"
| "lang ic (Chr a) p = (case p of [c] \<Rightarrow> chr_eq ic a c | _ \<Rightarrow> False)"
| "lang ic (Cls cs) p = (case p of [c] \<Rightarrow> cls_ok ic cs c | _ \<Rightarrow> False)"
| "lang ic (Seq r1 r2) p =
     list_ex (\<lambda>n. lang ic r1 (take n p) \<and> lang ic r2 (drop n p)) [0..<Suc (length p)]"
| "lang ic (Alt r1 r2) p = (lang ic r1 p \<or> lang ic r2 p)"
| "lang ic (Rep gr n cs) p = (n \<le> length p \<and> list_all (cls_ok ic cs) p)"
| "lang ic (Opt r) p = (p = [] \<or> lang ic r p)"
| "lang ic (Grp n r) p = lang ic r p"
| "lang ic (Ref n) p = True"
| "lang ic Wb p = (p = [])"

fun may :: "bool \<Rightarrow> rx \<Rightarrow> char \<Rightarrow> bool" where
  "may ic Eps c = False"
| "may ic (Chr a) c = chr_eq ic a c"
| "may ic (Cls cs) c = cls_ok ic cs c"
| "may ic (Seq r1 r2) c = (may ic r1 c \<or> may ic r2 c)"
| "may ic (Alt r1 r2) c = (may ic r1 c \<or> may ic r2 c)"
| "may ic (Rep gr n cs) c = cls_ok ic cs c"
| "may ic (Opt r) c = may ic r c"
| "may ic (Grp n r) c = may ic r c"
| "may ic (Ref n) c = True"
| "may ic Wb c = False"

text \<open>
  What the three formats of the program have in common after the month name, and what
  the proofs need of a month name.
\<close>

definition date_tail :: rx where
  "date_tail = seqs [Rep True 1 Space, directive CHR ''d'', Chr CHR '','', Rep True 1 Space,
     directive CHR ''Y'']"

definition name_ok :: "string \<Rightarrow> bool" where
  "name_ok s = (s \<noteq> [] \<and> \<not> is_digit (hd s) \<and> \<not> contains ''yesterday'' s \<and> \<not> contains ''ago'' s)"

section \<open>Properties of the matcher\<close>


text \<open>A result of the matcher is a result of its continuation, on a suffix of the text.\<close>

lemma rep_greedy_cont:
  "rep_greedy ic p n g pv s k = Some x \<Longrightarrow>
     \<exists>st'. k st' = Some x \<and> suffix (rest st') s \<and> grps st' = g"
proof (induction s arbitrary: n pv)
  case Nil
  then show ?case by (auto split: if_splits)
next
  case (Cons c cs)
  then show ?case by (auto split: if_splits option.splits simp: suffix_Cons)
qed

lemma rep_lazy_cont:
  "rep_lazy ic p n g pv s k = Some x \<Longrightarrow>
     \<exists>st'. k st' = Some x \<and> suffix (rest st') s \<and> grps st' = g"
proof (induction s arbitrary: n pv)
  case Nil
  then show ?case by (auto split: if_splits)
next
  case (Cons c cs)
  then show ?case by (auto split: if_splits option.splits simp: suffix_Cons)
qed

lemma rxm_cont:
  "rxm ic r st k = Some x \<Longrightarrow> \<exists>st'. k st' = Some x \<and> suffix (rest st') (rest st)"
proof (induction r arbitrary: st k)
  case Eps
  then show ?case by auto
next
  case (Chr a)
  then show ?case by (auto split: list.splits if_splits simp: suffix_Cons)
next
  case (Cls p)
  then show ?case by (auto split: list.splits if_splits simp: suffix_Cons)
next
  case (Seq r1 r2)
  from Seq.prems have "rxm ic r1 st (\<lambda>st'. rxm ic r2 st' k) = Some x" by simp
  from Seq.IH(1)[OF this] obtain st1
    where a: "rxm ic r2 st1 k = Some x" "suffix (rest st1) (rest st)" by auto
  from Seq.IH(2)[OF a(1)] a(2) show ?case by (meson suffix_order.order_trans)
next
  case (Alt r1 r2)
  then show ?case by (auto simp: orelse_def split: option.splits)
next
  case (Rep gr n p)
  then show ?case by (auto split: if_splits dest: rep_greedy_cont rep_lazy_cont)
next
  case (Opt r)
  then show ?case by (auto simp: orelse_def split: option.splits)
next
  case (Grp n r)
  from Grp.prems Grp.IH show ?case by fastforce
next
  case (Ref n)
  then show ?case by (auto split: option.splits if_splits simp: suffix_drop)
next
  case Wb
  then show ?case by (auto split: if_splits)
qed

lemma match_at_prefix: "match_at ic r pv t = Some mo \<Longrightarrow> prefix (group0 mo) t"
  unfolding match_at_def by (drule rxm_cont) (auto simp: take_is_prefix)

lemma code_char_of: "n < 256 \<Longrightarrow> code (char_of n) = n"
  by (simp add: code_def)

lemma code_lt: "code c < 256"
  by (simp add: code_def)

lemma code_inj: "code a = code b \<Longrightarrow> a = b"
  by (simp add: code_def)

lemma code_lower_chr:
  "code (lower_chr c) = (if is_upper_ascii c \<or> (192 \<le> code c \<and> code c \<le> 222 \<and> code c \<noteq> 215)
      then code c + 32 else code c)"
  by (auto simp: lower_chr_def is_upper_ascii_def code_char_of)

lemma caselessI: "code x < 65 \<or> (122 < code x \<and> code x < 192) \<or> (90 < code x \<and> code x < 97) \<Longrightarrow> caseless x"
  unfolding caseless_def
proof (intro allI impI)
  fix c assume a: "code x < 65 \<or> (122 < code x \<and> code x < 192) \<or> (90 < code x \<and> code x < 97)" and b: "lower_chr c = lower_chr x"
  from b have "code (lower_chr c) = code (lower_chr x)" by simp
  with a have "code c = code x"
    by (auto simp: code_lower_chr is_upper_ascii_def split: if_splits)
  then show "c = x" by (rule code_inj)
qed

lemma caseless_lt [simp]: "caseless CHR ''<''" by (rule caselessI) (simp add: code_def)
lemma caseless_eq [simp]: "caseless CHR ''=''" by (rule caselessI) (simp add: code_def)
lemma caseless_gt [simp]: "caseless CHR ''>''" by (rule caselessI) (simp add: code_def)

lemma chr_eq_caseless: "caseless x \<Longrightarrow> chr_eq ic x c = (c = x)"
  by (auto simp: chr_eq_def caseless_def)

lemma needs_chr_None:
  "caseless x \<Longrightarrow> needs_chr x r \<Longrightarrow> x \<notin> set (rest st) \<Longrightarrow> rxm ic r st k = None"
proof (induction r arbitrary: st k)
  case (Chr a)
  then show ?case by (cases "rest st") (auto simp: chr_eq_caseless)
next
  case (Seq r1 r2)
  show ?case
  proof (cases "needs_chr x r1")
    case True
    with Seq show ?thesis by simp
  next
    case False
    with Seq.prems have n2: "needs_chr x r2" by simp
    show ?thesis
    proof (rule ccontr)
      assume "rxm ic (Seq r1 r2) st k \<noteq> None"
      then obtain y where "rxm ic r1 st (\<lambda>st'. rxm ic r2 st' k) = Some y" by auto
      from rxm_cont[OF this] obtain st1 where s1: "rxm ic r2 st1 k = Some y" "suffix (rest st1) (rest st)"
        by auto
      from s1(2) Seq.prems(3) have "x \<notin> set (rest st1)" using set_mono_suffix by blast
      from Seq.IH(2)[OF Seq.prems(1) n2 this] s1(1) show False by simp
    qed
  qed
next
  case (Alt r1 r2)
  then show ?case by (simp add: orelse_def)
qed simp_all

lemma match_at_needs_chr:
  "caseless x \<Longrightarrow> needs_chr x r \<Longrightarrow> x \<notin> set t \<Longrightarrow> match_at ic r pv t = None"
  unfolding match_at_def by (rule needs_chr_None) simp_all

text \<open>A substitution that replaces every match by the matched text changes nothing.\<close>

lemma sub_from_id:
  "(\<And>pv' t mo. suffix t s \<Longrightarrow> m pv' t = Some mo \<Longrightarrow> repl mo = group0 mo \<and> prefix (group0 mo) t)
     \<Longrightarrow> sub_from m repl pv s = s"
proof (induction m repl pv s rule: sub_from.induct)
  case (1 m repl pv)
  then show ?case by (auto split: option.splits)
next
  case (2 m repl pv c cs)
  show ?case
  proof (cases "m pv (c # cs)")
    case None
    have "sub_from m repl (Some c) cs = cs"
      by (rule "2.IH"(1)[OF None]) (use "2.prems" in \<open>auto simp: suffix_Cons\<close>)
    with None show ?thesis by simp
  next
    case (Some mo)
    from "2.prems"[OF _ Some] have g: "repl mo = group0 mo" "prefix (group0 mo) (c # cs)" by auto
    define n where "n = length (group0 mo)"
    show ?thesis
    proof (cases "n = 0")
      case True
      have "sub_from m repl (Some c) cs = cs"
        by (rule "2.IH"(2)[OF Some n_def True]) (use "2.prems" in \<open>auto simp: suffix_Cons\<close>)
      with Some True g show ?thesis by (simp add: n_def)
    next
      case False
      have ih: "sub_from m repl (Some ((c # cs) ! (min n (length cs + 1) - 1))) (drop n (c # cs))
          = drop n (c # cs)"
      proof (rule "2.IH"(3)[OF Some n_def False])
        fix pv' t mo' assume a: "suffix t (drop n (c # cs))" "m pv' t = Some mo'"
        from a(1) have "suffix t (c # cs)" by (meson suffix_drop suffix_order.trans)
        from "2.prems"[OF this a(2)] show "repl mo' = group0 mo' \<and> prefix (group0 mo') t" .
      qed
      from g(2) have tk: "group0 mo = take n (c # cs)"
        by (metis append_eq_conv_conj n_def prefix_def)
      have "sub_from m repl pv (c # cs)
          = repl mo @ sub_from m repl (Some ((c # cs) ! (min n (length cs + 1) - 1))) (drop n (c # cs))"
        using Some False by (simp add: n_def Let_def)
      also have "\<dots> = group0 mo @ drop n (c # cs)" by (simp only: ih g(1))
      also have "\<dots> = c # cs" by (simp only: tk append_take_drop_id)
      finally show ?thesis .
    qed
  qed
qed

lemma re_sub_id:
  "(\<And>pv t mo. suffix t s \<Longrightarrow> match_at ic r pv t = Some mo \<Longrightarrow> repl mo = group0 mo)
     \<Longrightarrow> re_sub ic r repl s = s"
  unfolding re_sub_def by (rule sub_from_id) (auto dest: match_at_prefix)

lemma re_sub_absent:
  "caseless x \<Longrightarrow> needs_chr x r \<Longrightarrow> x \<notin> set s \<Longrightarrow> re_sub ic r repl s = s"
proof (rule re_sub_id)
  fix pv t mo assume "caseless x" "needs_chr x r" "x \<notin> set s" "suffix t s" "match_at ic r pv t = Some mo"
  moreover then have "x \<notin> set t" using set_mono_suffix by blast
  ultimately show "repl mo = group0 mo" using match_at_needs_chr by fastforce
qed

lemma needs_script: "needs_chr CHR ''<'' script_rx" by (simp add: script_rx_def)
lemma needs_handler: "needs_chr CHR ''='' handler_rx" by (simp add: handler_rx_def)
lemma needs_jshref: "needs_chr CHR ''='' jshref_rx" by (simp add: jshref_rx_def)
lemma needs_tag: "needs_chr CHR ''<'' tag_rx" by (simp add: tag_rx_def)
lemma needs_anchor: "needs_chr CHR ''<'' anchor_rx" by (simp add: anchor_rx_def)

lemma sanitize_plain:
  "s \<noteq> [] \<Longrightarrow> CHR ''<'' \<notin> set s \<Longrightarrow> CHR ''='' \<notin> set s \<Longrightarrow> basic_sanitize_ul s = s"
  by (simp add: basic_sanitize_ul_def re_sub_absent[OF caseless_lt needs_script] re_sub_absent[OF caseless_eq needs_handler]
      re_sub_absent[OF caseless_eq needs_jshref] re_sub_absent[OF caseless_lt needs_tag] re_sub_absent[OF caseless_lt needs_anchor])

section \<open>The sanitizer's invariant\<close>

text \<open>
  Claim C1. The claim says that the output of \<open>basic_sanitize_ul\<close> never holds a
  \<open>javascript:\<close> link or an inline event handler. The code keeps both: a
  \<open>javascript:\<close> link whose value holds a quote character is not matched by the pattern
  of the third step, and a handler whose value is not quoted is not matched by the pattern
  of the second step. Both inputs come back with the dangerous attribute in place, the
  anchor only gaining \<open>target\<close> and \<open>rel\<close>.
\<close>

theorem sanitize_keeps_javascript_and_handler:
  \<open>basic_sanitize_ul ''<a href="javascript:alert('x')">x</a>''
     = ''<a href="javascript:alert('x')" target="_blank" rel="noopener">x</a>''
   \<and> basic_sanitize_ul ''<a onclick=alert(1)>x</a>''
     = ''<a onclick=alert(1) target="_blank" rel="noopener">x</a>''\<close>
  by code_simp

section \<open>Plain text and blank input\<close>

text \<open>
  Claim C10. The sanitizer neither escapes nor wraps plain text: an input made of ASCII
  letters, digits and spaces only, with at least one character that is not a space, is
  returned unchanged, character for character.
\<close>

theorem sanitize_plain_text_unchanged:
  assumes "\<forall>c\<in>set s. is_upper_ascii c \<or> is_lower_ascii c \<or> is_digit c \<or> c = CHR '' ''"
    and "\<exists>c\<in>set s. c \<noteq> CHR '' ''"
  shows "basic_sanitize_ul s = s"
proof (rule sanitize_plain)
  from assms(2) show "s \<noteq> []" by auto
  from assms(1) show "CHR ''<'' \<notin> set s"
    by (auto simp: is_upper_ascii_def is_lower_ascii_def is_digit_def code_def)
  from assms(1) show "CHR ''='' \<notin> set s"
    by (auto simp: is_upper_ascii_def is_lower_ascii_def is_digit_def code_def)
qed

theorem sanitize_plain_text_unchanged_witness:
  "list_all (\<lambda>c. is_upper_ascii c \<or> is_lower_ascii c \<or> is_digit c \<or> c = CHR '' '')
       ''AI startup raises 5 million''
   \<and> (\<exists>c\<in>set ''AI startup raises 5 million''. c \<noteq> CHR '' '')
   \<and> basic_sanitize_ul ''AI startup raises 5 million'' = ''AI startup raises 5 million''"
proof -
  have h1: "\<forall>c\<in>set ''AI startup raises 5 million''.
       is_upper_ascii c \<or> is_lower_ascii c \<or> is_digit c \<or> c = CHR '' ''"
    by code_simp
  have h2: "\<exists>c\<in>set ''AI startup raises 5 million''. c \<noteq> CHR '' ''"
    by code_simp
  from sanitize_plain_text_unchanged[OF h1 h2] h1 h2 show ?thesis
    unfolding list_all_iff by blast
qed

text \<open>
  Claim C2, as stated: every input that is empty or consists of whitespace only gives
  \<open><ul></ul>\<close>. The guard of the code is \<open>if not html_fragment\<close>, which holds for the
  empty string only; a single blank is returned as it is.
\<close>

theorem sanitize_blank_counterexample:
  "list_all is_space '' '' \<and> basic_sanitize_ul '' '' \<noteq> ''<ul></ul>''"
  by code_simp

text \<open>
  Claim C2, amended: the empty input gives exactly \<open><ul></ul>\<close>; a non-empty input
  that consists of whitespace only is returned unchanged.
\<close>

theorem sanitize_empty_and_blank:
  "basic_sanitize_ul [] = ''<ul></ul>''
   \<and> (s \<noteq> [] \<and> (\<forall>c\<in>set s. is_space c) \<longrightarrow> basic_sanitize_ul s = s)"
proof -
  have "basic_sanitize_ul s = s" if "s \<noteq> []" "\<forall>c\<in>set s. is_space c"
  proof (rule sanitize_plain[OF that(1)])
    from that(2) show "CHR ''<'' \<notin> set s" by (auto simp: is_space_def code_def)
    from that(2) show "CHR ''='' \<notin> set s" by (auto simp: is_space_def code_def)
  qed
  then show ?thesis by (simp add: basic_sanitize_ul_def)
qed

theorem sanitize_empty_and_blank_witness:
  "basic_sanitize_ul [] = ''<ul></ul>''
   \<and> list_all is_space [CHR '' '', CHR 0x09, CHR 0x0A]
   \<and> basic_sanitize_ul [CHR '' '', CHR 0x09, CHR 0x0A] = [CHR '' '', CHR 0x09, CHR 0x0A]"
proof -
  have h: "\<forall>c\<in>set [CHR '' '', CHR 0x09, CHR 0x0A]. is_space c" by code_simp
  from sanitize_empty_and_blank[of "[CHR '' '', CHR 0x09, CHR 0x0A]"] h show ?thesis
    unfolding list_all_iff by blast
qed

section \<open>Idempotence\<close>

lemma rep_greedy_Suc_pv: "rep_greedy ic p (Suc n) g pv s k = rep_greedy ic p (Suc n) g pv' s k"
  by (cases s) auto

lemma rxm_Chr_pv: "rxm ic (Seq (Chr a) r) (MSt pv g t) k = rxm ic (Seq (Chr a) r) (MSt pv' g t) k"
  by (cases t) simp_all

lemma rxm_Chr_Chr_pv:
  "rxm ic (Seq (Seq (Chr a) r) r') (MSt pv g t) k = rxm ic (Seq (Seq (Chr a) r) r') (MSt pv' g t) k"
  by (cases t) simp_all

lemma match_at_script_pv: "match_at True script_rx pv t = match_at True script_rx None t"
  unfolding match_at_def script_rx_def seqs.simps by (rule rxm_Chr_pv)

lemma match_at_handler_pv: "match_at True handler_rx pv t = match_at True handler_rx None t"
  unfolding match_at_def handler_rx_def seqs.simps
  by (simp add: rep_greedy_Suc_pv[of _ _ _ _ pv _ _ None])

lemma match_at_jshref_pv: "match_at True jshref_rx pv t = match_at True jshref_rx None t"
  unfolding match_at_def jshref_rx_def seqs.simps lit_def list.map by (rule rxm_Chr_Chr_pv)

lemma match_at_tag_pv: "match_at True tag_rx pv t = match_at True tag_rx None t"
  unfolding match_at_def tag_rx_def seqs.simps by (rule rxm_Chr_pv)

lemma match_at_anchor_pv: "match_at True anchor_rx pv t = match_at True anchor_rx None t"
  unfolding match_at_def anchor_rx_def seqs.simps by (rule rxm_Chr_pv)

lemma re_sub_pattern_free:
  assumes "\<And>pv t. match_at True r pv t = match_at True r None t" and "pattern_free r x"
  shows "re_sub True r repl x = x"
proof (rule re_sub_id)
  fix pv t mo assume a: "suffix t x" "match_at True r pv t = Some mo"
  from a(1) assms(2) have "match_at True r None t = None"
    by (simp add: pattern_free_def list_all_iff in_set_suffixes)
  with a(2) assms(1)[of pv t] show "repl mo = group0 mo" by simp
qed

lemma fix_link_complete: "contains ''target='' tag \<Longrightarrow> contains ''rel='' tag \<Longrightarrow> fix_link tag = tag"
  by (simp add: fix_link_def)

lemma sanitize_fixed:
  assumes "x \<noteq> []" "pattern_free script_rx x" "pattern_free handler_rx x" "pattern_free jshref_rx x"
    "allowlist_only x" "attribute_complete x"
  shows "basic_sanitize_ul x = x"
proof -
  have 1: "re_sub True script_rx (\<lambda>m. []) x = x"
    by (rule re_sub_pattern_free[OF match_at_script_pv assms(2)])
  have 2: "re_sub True handler_rx (\<lambda>m. []) x = x"
    by (rule re_sub_pattern_free[OF match_at_handler_pv assms(3)])
  have 3: "re_sub True jshref_rx (\<lambda>m. href_hash) x = x"
    by (rule re_sub_pattern_free[OF match_at_jshref_pv assms(4)])
  have 4: "re_sub True tag_rx keep_or_strip x = x"
  proof (rule re_sub_id)
    fix pv t mo assume a: "suffix t x" "match_at True tag_rx pv t = Some mo"
    from a(2) have m: "match_at True tag_rx None t = Some mo" by (simp add: match_at_tag_pv[of pv t])
    from a(1) assms(5) have "case match_at True tag_rx None t of None \<Rightarrow> True
        | Some m \<Rightarrow> lower (group m 1) \<in> set allowed"
      unfolding allowlist_only_def list_all_iff in_set_suffixes[symmetric] by blast
    with m have "lower (group mo 1) \<in> set allowed" by simp
    then show "keep_or_strip mo = group0 mo" by (simp add: keep_or_strip_def)
  qed
  have 5: "re_sub True anchor_rx (\<lambda>m. fix_link (group0 m)) x = x"
  proof (rule re_sub_id)
    fix pv t mo assume a: "suffix t x" "match_at True anchor_rx pv t = Some mo"
    from a(2) have m: "match_at True anchor_rx None t = Some mo"
      by (simp add: match_at_anchor_pv[of pv t])
    from a(1) assms(6) have "case match_at True anchor_rx None t of None \<Rightarrow> True
        | Some m \<Rightarrow> contains ''target='' (group0 m) \<and> contains ''rel='' (group0 m)"
      unfolding attribute_complete_def list_all_iff in_set_suffixes[symmetric] by blast
    with m show "fix_link (group0 mo) = group0 mo" by (simp add: fix_link_complete)
  qed
  show ?thesis using assms(1) by (simp add: basic_sanitize_ul_def 1 2 3 4 5)
qed

lemma sanitize_empty_twice: "basic_sanitize_ul (basic_sanitize_ul []) = basic_sanitize_ul []"
  by code_simp

lemma sanitize_idempotent_on_clean:
  assumes "pattern_free script_rx x" "pattern_free handler_rx x" "pattern_free jshref_rx x"
    "allowlist_only x" "attribute_complete x"
  shows "basic_sanitize_ul (basic_sanitize_ul x) = basic_sanitize_ul x
     \<and> (x \<noteq> [] \<longrightarrow> basic_sanitize_ul x = x)"
  using sanitize_fixed[OF _ assms] sanitize_empty_twice by (cases "x = []") auto

text \<open>
  Claim C8. The claim says that sanitizing twice equals sanitizing once on every fragment
  that holds only allowlisted tags and whose anchors hold \<open>target=\<close> and \<open>rel=\<close>. The
  code removes handler attributes in one pass of \<open>re.sub\<close>, which does not rescan its own
  output: in the fragment below, which holds only \<open>ul\<close> and \<open>li\<close> tags and no anchor, removing
  \<open> onclick="1"\<close> joins \<open>on\<close> and \<open>click="evil()"\<close>. The first pass returns a fragment with a
  handler attribute in it, and only the second pass removes that attribute, so the two
  results differ.
\<close>

theorem sanitize_second_pass_differs:
  \<open>allowlist_only ''<ul><li on onclick="1"click="evil()">a</li></ul>''
   \<and> attribute_complete ''<ul><li on onclick="1"click="evil()">a</li></ul>''
   \<and> basic_sanitize_ul ''<ul><li on onclick="1"click="evil()">a</li></ul>''
       = ''<ul><li onclick="evil()">a</li></ul>''
   \<and> basic_sanitize_ul (basic_sanitize_ul ''<ul><li on onclick="1"click="evil()">a</li></ul>'')
       = ''<ul><li>a</li></ul>''\<close>
  by code_simp

section \<open>The anchor step\<close>

text \<open>Greedy repetition of a class, when what follows cannot start with a character of the class.\<close>

lemma lastc_simps [simp]: "lastc pv [] = pv" "lastc pv (c # cs) = lastc (Some c) cs"
  by (auto simp: lastc_def)

lemma rep_greedy_exact:
  assumes "\<And>pv' c cs. cls_ok ic p c \<Longrightarrow> k (MSt pv' g (c # cs)) = None"
  shows "rep_greedy ic p n g pv s k =
     (if n \<le> length (takeWhile (cls_ok ic p) s)
      then k (MSt (lastc pv (takeWhile (cls_ok ic p) s)) g (dropWhile (cls_ok ic p) s))
      else None)"
proof (induction s arbitrary: n pv)
  case Nil
  show ?case by simp
next
  case (Cons c cs)
  show ?case
  proof (cases "cls_ok ic p c")
    case True
    have "rep_greedy ic p n g pv (c # cs) k = rep_greedy ic p (n - 1) g (Some c) cs k"
      using True assms[OF True] by (simp split: option.splits)
    also have "\<dots> = (if n - 1 \<le> length (takeWhile (cls_ok ic p) cs)
      then k (MSt (lastc (Some c) (takeWhile (cls_ok ic p) cs)) g (dropWhile (cls_ok ic p) cs))
      else None)" by (rule Cons.IH)
    finally show ?thesis using True by (auto simp: le_diff_conv)
  next
    case False
    then show ?thesis by simp
  qed
qed

lemma prefix_sep: "c \<notin> set pat \<Longrightarrow> prefix pat (as @ c # bs) = prefix pat as"
  by (auto simp: prefix_append prefix_Cons)

lemma contains_sep:
  "c \<notin> set pat \<Longrightarrow> pat \<noteq> [] \<Longrightarrow> contains pat (xs @ c # ys) = (contains pat xs \<or> contains pat ys)"
proof (induction xs)
  case Nil
  then show ?case by (auto simp: prefix_Cons)
next
  case (Cons x xs)
  from Cons.prems(1) have "prefix pat ((x # xs) @ c # ys) = prefix pat (x # xs)" by (rule prefix_sep)
  with Cons show ?case by auto
qed

lemma count_sub_sep:
  "c \<notin> set pat \<Longrightarrow> pat \<noteq> [] \<Longrightarrow> count_sub pat (xs @ c # ys) = count_sub pat xs + count_sub pat ys"
proof (induction xs)
  case Nil
  then show ?case by (auto simp: prefix_Cons)
next
  case (Cons x xs)
  from Cons.prems(1) have "prefix pat ((x # xs) @ c # ys) = prefix pat (x # xs)" by (rule prefix_sep)
  with Cons show ?case by auto
qed

lemma count_sub_0: "\<not> contains pat s \<Longrightarrow> count_sub pat s = 0"
  by (induction s) auto

lemma fix_link_eq:
  "fix_link (body @ ''>'') =
     body @ (if contains ''target='' (body @ ''>'') then [] else target_attr)
          @ (if contains ''rel='' (body @ ''>'') then [] else rel_attr) @ ''>''"
proof -
  have r1: "contains ''rel='' (body @ ''>'') = contains ''rel='' body"
    using contains_sep[of "CHR ''>''" "''rel=''" body "[]"] by simp
  have r2: "contains ''rel='' (body @ target_attr @ ''>'') = contains ''rel='' body"
    using contains_sep[of "CHR '' ''" "''rel=''" body "tl target_attr @ ''>''"]
    by (simp add: target_attr_def)
  have b: "butlast (body @ target_attr @ ''>'') = body @ target_attr"
    by (simp add: butlast_append)
  show ?thesis by (simp add: fix_link_def r1 r2 b)
qed

lemma fix_link_once:
  assumes "\<not> contains ''target='' (body @ ''>'')" "\<not> contains ''rel='' (body @ ''>'')"
  shows "count_sub ''target='' (fix_link (body @ ''>'')) = 1"
    and "count_sub ''rel='' (fix_link (body @ ''>'')) = 1"
proof -
  have t: "\<not> contains ''target='' body"
    using assms(1) contains_sep[of "CHR ''>''" "''target=''" body "[]"] by simp
  have r: "\<not> contains ''rel='' body"
    using assms(2) contains_sep[of "CHR ''>''" "''rel=''" body "[]"] by simp
  have e: "fix_link (body @ ''>'') = body @ CHR '' '' # (tl target_attr @ rel_attr @ ''>'')"
    using assms by (simp add: fix_link_eq target_attr_def)
  show "count_sub ''target='' (fix_link (body @ ''>'')) = 1"
    unfolding e using count_sub_sep[of "CHR '' ''" "''target=''" body] count_sub_0[OF t]
    by (simp add: target_attr_def rel_attr_def)
  show "count_sub ''rel='' (fix_link (body @ ''>'')) = 1"
    unfolding e using count_sub_sep[of "CHR '' ''" "''rel=''" body] count_sub_0[OF r]
    by (simp add: target_attr_def rel_attr_def)
qed

lemma sub_from_hit:
  assumes "m pv (tag @ post) = Some mo" "group0 mo = tag" "tag \<noteq> []"
  shows "sub_from m repl pv (tag @ post) = repl mo @ sub_from m repl (Some (last tag)) post"
proof -
  obtain c cs where cc: "tag @ post = c # cs" using assms(3) by (cases tag) auto
  have "length (tag @ post) = length (c # cs)" using cc by simp
  then have l: "length tag \<le> length cs + 1" by simp
  have "(tag @ post) ! (length tag - 1) = tag ! (length tag - 1)"
    using assms(3) by (simp add: nth_append)
  then have nth: "(c # cs) ! (length tag - 1) = last tag"
    using assms(3) cc by (simp add: last_conv_nth)
  have "sub_from m repl pv (c # cs) = repl mo @ sub_from m repl (Some ((c # cs) ! (min (length tag) (length cs + 1) - 1))) (drop (length tag) (c # cs))"
    using assms cc by (simp add: Let_def del: drop_Suc_Cons)
  also have "drop (length tag) (c # cs) = post" unfolding cc[symmetric] by simp
  also have "min (length tag) (length cs + 1) = length tag" using l by simp
  finally show ?thesis using cc nth by simp
qed

lemma sub_from_pv:
  "(\<And>pv pv' t. m pv t = m pv' t) \<Longrightarrow> sub_from m repl pv s = sub_from m repl pv' s"
proof (cases s)
  case Nil
  assume "\<And>pv pv' t. m pv t = m pv' t"
  from this[of pv "[]" pv'] Nil show ?thesis by simp
next
  case (Cons c cs)
  assume "\<And>pv pv' t. m pv t = m pv' t"
  from this[of pv "c # cs" pv'] Cons show ?thesis by simp
qed

lemma lower_chr_A [simp]: "lower_chr CHR ''A'' = CHR ''a''" "lower_chr CHR ''a'' = CHR ''a''"
  by (rule code_inj, simp add: code_lower_chr is_upper_ascii_def, simp add: code_def)+

lemma is_word_a [simp]: "is_word CHR ''a''" "is_word CHR ''A''" "\<not> is_word CHR ''>''"
  by (simp_all add: is_word_def is_digit_def is_upper_ascii_def is_lower_ascii_def code_def)

lemma lower_chr_gt: "lower_chr c = CHR ''>'' \<longleftrightarrow> c = CHR ''>''"
proof
  assume a: "lower_chr c = CHR ''>''"
  have g: "code CHR ''>'' = 62" by (simp add: code_def)
  from a g have "code (lower_chr c) = 62" by simp
  then have "code c = 62"
    by (simp add: code_lower_chr is_upper_ascii_def split: if_splits)
  with g have "code c = code CHR ''>''" by simp
  then show "c = CHR ''>''" by (rule code_inj)
next
  assume "c = CHR ''>''"
  then show "lower_chr c = CHR ''>''"
    by (simp add: lower_chr_def is_upper_ascii_def code_def)
qed

lemma cls_ok_not_gt: "cls_ok True (NoneOf ''>'') c = (c \<noteq> CHR ''>'')"
  by (simp add: cls_ok_def lower_chr_gt)

lemma match_at_anchor_tag:
  assumes "a = CHR ''a'' \<or> a = CHR ''A''" "CHR ''>'' \<notin> set attrs" "attrs = [] \<or> \<not> is_word (hd attrs)"
  shows "match_at True anchor_rx pv ([CHR ''<'', a] @ attrs @ ''>'' @ post)
     = Some \<lparr>group0 = [CHR ''<'', a] @ attrs @ ''>'', groups = [(1, attrs)]\<rparr>"
proof -
  let ?s = "[CHR ''<'', a] @ attrs @ ''>'' @ post"
  let ?t = "attrs @ ''>'' @ post"
  let ?k = "\<lambda>st. Some \<lparr>group0 = take (length ?s - length (rest st)) ?s, groups = grps st\<rparr>"
  let ?k1 = "\<lambda>st'. rxm True (Seq (Chr CHR ''>'') Eps)
               (MSt (prev st') ((1, take (length ?t - length (rest st')) ?t) # grps st') (rest st')) ?k"
  have w: "is_word a" using assms(1) by auto
  have b: "at_boundary (Some a) ?t"
    using assms(3) w by (cases attrs) (auto simp: at_boundary_def)
  have ca: "chr_eq True CHR ''a'' a" using assms(1) by (auto simp: chr_eq_def)
  have tw: "takeWhile (cls_ok True (NoneOf ''>'')) ?t = attrs"
    using assms(2) by (auto simp: cls_ok_not_gt[abs_def] takeWhile_tail takeWhile_eq_all_conv)
  have dw: "dropWhile (cls_ok True (NoneOf ''>'')) ?t = ''>'' @ post"
    using assms(2) by (auto simp: cls_ok_not_gt[abs_def] dropWhile_append3 dropWhile_eq_Nil_conv)
  have "rep_greedy True (NoneOf ''>'') 0 [] (Some a) ?t ?k1 =
     (if 0 \<le> length (takeWhile (cls_ok True (NoneOf ''>'')) ?t)
      then ?k1 (MSt (lastc (Some a) (takeWhile (cls_ok True (NoneOf ''>'')) ?t)) []
                  (dropWhile (cls_ok True (NoneOf ''>'')) ?t))
      else None)"
    by (rule rep_greedy_exact) (simp add: cls_ok_not_gt chr_eq_caseless)
  also have "\<dots> = Some \<lparr>group0 = [CHR ''<'', a] @ attrs @ ''>'', groups = [(1, attrs)]\<rparr>"
    unfolding tw dw by (simp add: chr_eq_caseless numeral_3_eq_3)
  finally have r: "rep_greedy True (NoneOf ''>'') 0 [] (Some a) ?t ?k1
     = Some \<lparr>group0 = [CHR ''<'', a] @ attrs @ ''>'', groups = [(1, attrs)]\<rparr>" .
  have "match_at True anchor_rx pv ?s = rep_greedy True (NoneOf ''>'') 0 [] (Some a) ?t ?k1"
    unfolding match_at_def anchor_rx_def seqs.simps
    using b ca by (simp add: chr_eq_caseless cong: list.case_cong if_cong)
  with r show ?thesis by simp
qed

lemma rxm_Seq_Chr_MSt:
  "rxm ic (Seq (Chr x) r) (MSt pv g (c # cs)) k
     = (if chr_eq ic x c then rxm ic r (MSt (Some c) g cs) k else None)"
  by simp

lemma chr_eq_a: "chr_eq True CHR ''a'' d = (lower_chr d = CHR ''a'')"
  by (auto simp: chr_eq_def)

lemma match_at_anchor_fail:
  "\<not> (c = CHR ''<'' \<and> lower_chr d = CHR ''a'') \<Longrightarrow> match_at True anchor_rx pv (c # d # r) = None"
  unfolding match_at_def anchor_rx_def seqs.simps
  by (auto simp del: rxm.simps simp add: rxm_Seq_Chr_MSt chr_eq_caseless chr_eq_a)

lemma sanitize_allowlist_step:
  "x \<noteq> [] \<Longrightarrow> basic_sanitize_ul x
     = re_sub True anchor_rx (\<lambda>m. fix_link (group0 m)) (allowlist_step x)"
  by (simp add: basic_sanitize_ul_def allowlist_step_def Let_def)

lemma lower_a_cases: "lower_chr d = CHR ''a'' \<Longrightarrow> d = CHR ''a'' \<or> d = CHR ''A''"
proof -
  assume a: "lower_chr d = CHR ''a''"
  have g: "code CHR ''a'' = 97" "code CHR ''A'' = 65" by (simp_all add: code_def)
  from a g have "code (lower_chr d) = 97" by simp
  then have "code d = 97 \<or> code d = 65"
    by (simp add: code_lower_chr is_upper_ascii_def split: if_splits)
  with g have "code d = code CHR ''a'' \<or> code d = code CHR ''A''" by simp
  then show ?thesis using code_inj by blast
qed

lemma rxm_Seq_Wb_MSt:
  "rxm ic (Seq Wb r) (MSt pv g t) k = (if at_boundary pv t then rxm ic r (MSt pv g t) k else None)"
  by simp

lemma needs_gt_anchor: "needs_chr CHR ''>'' anchor_rx"
  by (simp add: anchor_rx_def)

lemma match_at_anchor_first: "c \<noteq> CHR ''<'' \<Longrightarrow> match_at True anchor_rx pv (c # r) = None"
  unfolding match_at_def anchor_rx_def seqs.simps
  by (simp del: rxm.simps add: rxm_Seq_Chr_MSt chr_eq_caseless)

lemma anchor_None:
  assumes n: "\<not> anchor_at t"
  shows "match_at True anchor_rx pv t = None"
proof (cases "CHR ''>'' \<in> set t")
  case False
  then show ?thesis by (rule match_at_needs_chr[OF caseless_gt needs_gt_anchor])
next
  case gt: True
  show ?thesis
  proof (cases t)
    case Nil
    with gt show ?thesis by simp
  next
    case t: (Cons c u)
    show ?thesis
    proof (cases "c = CHR ''<''")
      case False
      then show ?thesis unfolding t by (rule match_at_anchor_first)
    next
      case c: True
      show ?thesis
      proof (cases u)
        case Nil
        with gt t c show ?thesis by simp
      next
        case u: (Cons d v)
        show ?thesis
        proof (cases "lower_chr d = CHR ''a''")
          case False
          then show ?thesis unfolding t u by (intro match_at_anchor_fail) simp
        next
          case d: True
          then have dd: "d = CHR ''a'' \<or> d = CHR ''A''" by (rule lower_a_cases)
          show ?thesis
          proof (cases v)
            case Nil
            with gt t c u dd show ?thesis by auto
          next
            case v: (Cons e r)
            from gt t c u v dd have g: "CHR ''>'' \<in> set (e # r)" by auto
            from n have "\<not> anchor_at (c # d # e # r)" unfolding t u v .
            with c d g have w: "is_word e" by (simp only: anchor_at.simps) blast
            have "\<not> at_boundary (Some d) (e # r)" using dd w by (auto simp: at_boundary_def)
            then show ?thesis unfolding t u v match_at_def anchor_rx_def seqs.simps using c d
              by (simp del: rxm.simps add: rxm_Seq_Chr_MSt rxm_Seq_Wb_MSt chr_eq_caseless chr_eq_a)
          qed
        qed
      qed
    qed
  qed
qed

lemma sub_from_anchor_free:
  "anchor_free p aft \<Longrightarrow>
     sub_from (match_at True anchor_rx) f pv (p @ aft)
       = p @ sub_from (match_at True anchor_rx) f (lastc pv p) aft"
proof (induction p arbitrary: pv)
  case Nil
  show ?case by simp
next
  case (Cons c cs)
  from Cons.prems have "\<not> anchor_at (c # cs @ aft)" "anchor_free cs aft" by simp_all
  from anchor_None[OF this(1), of pv] Cons.IH[OF this(2), of "Some c"] show ?case by simp
qed

lemma re_sub_anchor_free: "anchor_free fin [] \<Longrightarrow> re_sub True anchor_rx f fin = fin"
  using sub_from_anchor_free[of fin "[]" f None] anchor_None[of "[]"]
  by (simp add: re_sub_def)

lemma anchor_tag_parts:
  assumes "is_anchor_tag t"
  obtains a attrs where "t = [CHR ''<'', a] @ attrs @ ''>''" "a = CHR ''a'' \<or> a = CHR ''A''"
    "CHR ''>'' \<notin> set attrs" "attrs = [] \<or> \<not> is_word (hd attrs)"
proof (cases t rule: is_anchor_tag.cases)
  case (1 c d e r)
  with assms have h: "c = CHR ''<''" "d = CHR ''a'' \<or> d = CHR ''A''" "\<not> is_word e"
    "last (e # r) = CHR ''>''" "CHR ''>'' \<notin> set (butlast (e # r))" by simp_all
  have "e # r = butlast (e # r) @ [last (e # r)]" by (rule append_butlast_last_id[symmetric]) simp
  with h(4) have er: "e # r = butlast (e # r) @ ''>''" by simp
  have "t = [CHR ''<'', d] @ butlast (e # r) @ ''>''" unfolding 1 h(1) using er by simp
  moreover have "butlast (e # r) = [] \<or> \<not> is_word (hd (butlast (e # r)))"
    using h(3) by (cases r) simp_all
  ultimately show ?thesis using that h(2) h(5) by blast
qed (use assms in simp_all)

lemma re_sub_anchor_tag:
  assumes "is_anchor_tag t" "anchor_free p (t @ aft)"
  shows "re_sub True anchor_rx (\<lambda>m. fix_link (group0 m)) (p @ t @ aft)
     = p @ fix_link t @ re_sub True anchor_rx (\<lambda>m. fix_link (group0 m)) aft"
proof -
  let ?m = "match_at True anchor_rx"
  let ?f = "\<lambda>m. fix_link (group0 m)"
  from assms(1) obtain a attrs where t: "t = [CHR ''<'', a] @ attrs @ ''>''"
    and a: "a = CHR ''a'' \<or> a = CHR ''A''" "CHR ''>'' \<notin> set attrs"
      "attrs = [] \<or> \<not> is_word (hd attrs)"
    by (rule anchor_tag_parts)
  let ?mo = "\<lparr>group0 = t, groups = [(1, attrs)]\<rparr>"
  have 1: "sub_from ?m ?f None (p @ t @ aft) = p @ sub_from ?m ?f (lastc None p) (t @ aft)"
    by (rule sub_from_anchor_free[OF assms(2)])
  have m: "?m (lastc None p) (t @ aft) = Some ?mo"
    unfolding t using match_at_anchor_tag[OF a, of "lastc None p" aft] by simp
  have 2: "sub_from ?m ?f (lastc None p) (t @ aft) = ?f ?mo @ sub_from ?m ?f (Some (last t)) aft"
    using m by (intro sub_from_hit[of ?m "lastc None p" t aft ?mo ?f]) (simp_all add: t)
  have 3: "sub_from ?m ?f (Some (last t)) aft = sub_from ?m ?f None aft"
    by (rule sub_from_pv) (rule trans[OF match_at_anchor_pv match_at_anchor_pv[symmetric]])
  show ?thesis by (simp add: re_sub_def 1 2 3)
qed

lemma re_sub_weave:
  "anchors_in segs fin \<Longrightarrow>
     re_sub True anchor_rx (\<lambda>m. fix_link (group0 m)) (weave segs fin)
       = weave (map (\<lambda>(p, t). (p, fix_link t)) segs) fin"
proof (induction segs)
  case Nil
  then show ?case by (simp add: re_sub_anchor_free)
next
  case (Cons pt segs)
  obtain p t where pt: "pt = (p, t)" by (cases pt)
  from Cons.prems have h: "anchor_free p (t @ weave segs fin)" "is_anchor_tag t" "anchors_in segs fin"
    unfolding pt by simp_all
  from re_sub_anchor_tag[OF h(2) h(1)] Cons.IH[OF h(3)] show ?case unfolding pt by simp
qed

lemma fix_link_tag_eq:
  assumes "is_anchor_tag t"
  shows "fix_link t = butlast t @ (if contains ''target='' t then [] else target_attr)
         @ (if contains ''rel='' t then [] else rel_attr) @ ''>''"
    and "\<not> contains ''target='' t \<Longrightarrow> \<not> contains ''rel='' t \<Longrightarrow>
          count_sub ''target='' (fix_link t) = 1 \<and> count_sub ''rel='' (fix_link t) = 1"
proof -
  from assms obtain a attrs where "t = [CHR ''<'', a] @ attrs @ ''>''" by (rule anchor_tag_parts)
  then have t: "t = ([CHR ''<'', a] @ attrs) @ ''>''" by simp
  show "fix_link t = butlast t @ (if contains ''target='' t then [] else target_attr)
         @ (if contains ''rel='' t then [] else rel_attr) @ ''>''"
    unfolding t fix_link_eq by simp
  show "count_sub ''target='' (fix_link t) = 1 \<and> count_sub ''rel='' (fix_link t) = 1"
    if "\<not> contains ''target='' t" "\<not> contains ''rel='' t"
    using that fix_link_once[of "[CHR ''<'', a] @ attrs"] unfolding t by blast
qed

text \<open>
  Claim C7. Let the fragment after the allowlist step be cut at its anchor tags: a text in
  which no anchor tag starts, an anchor tag, and so on, and a last text without anchor tag.
  Then the result of \<open>basic_sanitize_ul\<close> is the same sequence with every anchor tag
  \<open>t\<close> replaced by \<open>fix_link t\<close> and everything else as it was. \<open>fix_link t\<close> is \<open>t\<close>
  with \<open> target="_blank"\<close> put before the closing \<open>>\<close> exactly when \<open>target=\<close> occurs
  nowhere in \<open>t\<close>, followed by \<open> rel="noopener"\<close> exactly when \<open>rel=\<close> occurs nowhere in
  \<open>t\<close> (a plain substring test on the whole tag, attribute values included). A tag that
  held neither holds each of \<open>target=\<close> and \<open>rel=\<close> exactly once afterwards; a tag that held
  both is unchanged.
\<close>

theorem sanitize_fixes_every_anchor:
  assumes "x \<noteq> []" and "allowlist_step x = weave segs fin" and "anchors_in segs fin"
  shows "basic_sanitize_ul x = weave (map (\<lambda>(p, t). (p, fix_link t)) segs) fin
     \<and> (\<forall>(p, t)\<in>set segs.
          fix_link t = butlast t @ (if contains ''target='' t then [] else target_attr)
             @ (if contains ''rel='' t then [] else rel_attr) @ ''>''
        \<and> (\<not> contains ''target='' t \<and> \<not> contains ''rel='' t \<longrightarrow>
             count_sub ''target='' (fix_link t) = 1 \<and> count_sub ''rel='' (fix_link t) = 1)
        \<and> (contains ''target='' t \<and> contains ''rel='' t \<longrightarrow> fix_link t = t))"
proof -
  have 1: "basic_sanitize_ul x = weave (map (\<lambda>(p, t). (p, fix_link t)) segs) fin"
    using sanitize_allowlist_step[OF assms(1)] re_sub_weave[OF assms(3)] assms(2) by simp
  have tags: "is_anchor_tag t" if "(p, t) \<in> set segs" for p t
    using assms(3) that by (induction segs) auto
  have 2: "fix_link t = butlast t @ (if contains ''target='' t then [] else target_attr)
             @ (if contains ''rel='' t then [] else rel_attr) @ ''>''
        \<and> (\<not> contains ''target='' t \<and> \<not> contains ''rel='' t \<longrightarrow>
             count_sub ''target='' (fix_link t) = 1 \<and> count_sub ''rel='' (fix_link t) = 1)
        \<and> (contains ''target='' t \<and> contains ''rel='' t \<longrightarrow> fix_link t = t)"
    if "(p, t) \<in> set segs" for p t
    using fix_link_tag_eq[OF tags[OF that]] fix_link_complete[of t] by blast
  from 1 2 show ?thesis by blast
qed

theorem sanitize_fixes_every_anchor_witness:
  \<open>''<ul><li><a href="http://e.com">go</a></li></ul>'' \<noteq> []
   \<and> allowlist_step ''<ul><li><a href="http://e.com">go</a></li></ul>''
       = weave [(''<ul><li>'', ''<a href="http://e.com">'')] ''go</a></li></ul>''
   \<and> anchors_in [(''<ul><li>'', ''<a href="http://e.com">'')] ''go</a></li></ul>''
   \<and> basic_sanitize_ul ''<ul><li><a href="http://e.com">go</a></li></ul>''
       = ''<ul><li><a href="http://e.com" target="_blank" rel="noopener">go</a></li></ul>''
   \<and> count_sub ''target='' (fix_link ''<a href="http://e.com">'') = 1
   \<and> count_sub ''rel='' (fix_link ''<a href="http://e.com">'') = 1\<close>
proof -
  let ?x = \<open>''<ul><li><a href="http://e.com">go</a></li></ul>''\<close>
  let ?tag = \<open>''<a href="http://e.com">''\<close>
  let ?segs = "[(''<ul><li>'', ?tag)]"
  let ?fin = "''go</a></li></ul>''"
  have h1: "?x \<noteq> []" by simp
  have h2: "allowlist_step ?x = weave ?segs ?fin" by code_simp
  have h3: "anchors_in ?segs ?fin" by code_simp
  have nt: "\<not> contains ''target='' ?tag" by code_simp
  have nr: "\<not> contains ''rel='' ?tag" by code_simp
  have f: \<open>fix_link ?tag = ''<a href="http://e.com" target="_blank" rel="noopener">''\<close> by code_simp
  from sanitize_fixes_every_anchor[OF h1 h2 h3] nt nr
  have "basic_sanitize_ul ?x = weave (map (\<lambda>(p, t). (p, fix_link t)) ?segs) ?fin"
    and "count_sub ''target='' (fix_link ?tag) = 1" and "count_sub ''rel='' (fix_link ?tag) = 1"
    by auto
  with h1 h2 h3 show ?thesis unfolding f by (simp add: f)
qed

section \<open>The counted relative dates\<close>

subsection \<open>The patterns in closed form\<close>

lemma cls_ok_False: "cls_ok False p = in_cset p"
  by (auto simp: cls_ok_def fun_eq_iff)

lemma in_cset_Space: "in_cset Space = is_space"
  by (auto simp: fun_eq_iff)

lemma in_cset_Digit: "in_cset Digit = is_digit"
  by (auto simp: fun_eq_iff)

lemma chr_eq_False [simp]: "chr_eq False a c = (a = c)"
  by (simp add: chr_eq_def)

lemma rep_greedy_space:
  assumes "\<And>pv' c cs. is_space c \<Longrightarrow> k (MSt pv' g (c # cs)) = None"
  shows "rep_greedy False Space 0 g pv s k
     = k (MSt (lastc pv (takeWhile is_space s)) g (dropWhile is_space s))"
proof -
  have "rep_greedy False Space 0 g pv s k =
     (if 0 \<le> length (takeWhile (cls_ok False Space) s)
      then k (MSt (lastc pv (takeWhile (cls_ok False Space) s)) g (dropWhile (cls_ok False Space) s))
      else None)"
    by (rule rep_greedy_exact) (simp add: assms cls_ok_False)
  then show ?thesis by (simp add: cls_ok_False in_cset_Space)
qed

lemma rep_greedy_digit:
  assumes "\<And>pv' c cs. is_digit c \<Longrightarrow> k (MSt pv' g (c # cs)) = None"
  shows "rep_greedy False Digit 1 g pv s k
     = (if takeWhile is_digit s = [] then None
        else k (MSt (lastc pv (takeWhile is_digit s)) g (dropWhile is_digit s)))"
proof -
  have "rep_greedy False Digit 1 g pv s k =
     (if 1 \<le> length (takeWhile (cls_ok False Digit) s)
      then k (MSt (lastc pv (takeWhile (cls_ok False Digit) s)) g (dropWhile (cls_ok False Digit) s))
      else None)"
    by (rule rep_greedy_exact) (simp add: assms cls_ok_False)
  then show ?thesis by (simp add: cls_ok_False in_cset_Digit Suc_le_eq)
qed

lemma rxm_lit_MSt:
  "rxm False (seqs (map Chr w)) (MSt pv g t) k =
     (if prefix w t then k (MSt (lastc pv w) g (drop (length w) t)) else None)"
proof (induction w arbitrary: pv t)
  case Nil
  show ?case by simp
next
  case (Cons a w)
  show ?case by (cases t) (auto simp: Cons.IH)
qed

lemma rxm_lit:
  "rxm False (lit w) st k =
     (if prefix w (rest st) then k (MSt (lastc (prev st) w) (grps st) (drop (length w) (rest st)))
      else None)"
  unfolding lit_def by (cases st) (simp add: rxm_lit_MSt)

lemma take_dropWhile: "take (length s - length (dropWhile P s)) s = takeWhile P s"
proof -
  have "length s = length (takeWhile P s) + length (dropWhile P s)"
    by (metis length_append takeWhile_dropWhile_id)
  then have "length s - length (dropWhile P s) = length (takeWhile P s)" by simp
  then show ?thesis by (simp add: takeWhile_eq_take[symmetric])
qed

lemma take_prefix_len: "prefix w t \<Longrightarrow> take (length t - (length t - length w)) t = w"
  by (auto simp: prefix_def)

lemma not_space_a: "is_space c \<Longrightarrow> c \<noteq> CHR ''a''"
  by (auto simp: is_space_def code_def)

lemma digit_not_space: "is_digit c \<Longrightarrow> \<not> is_space c"
  by (auto simp: is_digit_def is_space_def)

text \<open>The end of the counted patterns: \<open>\s*ago\<close>.\<close>

lemma rxm_ago_tail:
  "rxm False ago_tail (MSt pv g t) k =
     (if prefix ''ago'' (dropWhile is_space t)
      then k (MSt (Some CHR ''o'') g (drop 3 (dropWhile is_space t)))
      else None)"
proof -
  let ?k = "\<lambda>st'. rxm False (lit ''ago'') st' k"
  have "rxm False ago_tail (MSt pv g t) k = rep_greedy False Space 0 g pv t ?k"
    by (simp add: ago_tail_def)
  also have "\<dots> = ?k (MSt (lastc pv (takeWhile is_space t)) g (dropWhile is_space t))"
    by (rule rep_greedy_space) (auto simp: rxm_lit prefix_Cons dest: not_space_a)
  also have "\<dots> = (if prefix ''ago'' (dropWhile is_space t)
      then k (MSt (Some CHR ''o'') g (drop 3 (dropWhile is_space t)))
      else None)"
    by (simp add: rxm_lit lastc_def numeral_3_eq_3)
  finally show ?thesis .
qed

text \<open>One unit word in a group, then the end of the pattern.\<close>

lemma rxm_unit:
  "rxm False (Seq (Grp n (lit w)) ago_tail) (MSt pv g t) k =
     (if unit_at w t
      then k (MSt (Some CHR ''o'') ((n, w) # g) (drop 3 (dropWhile is_space (drop (length w) t))))
      else None)"
  by (auto simp: rxm_lit rxm_ago_tail unit_at_def take_prefix_len)

lemma orelse_Some: "a \<noteq> None \<Longrightarrow> orelse a b = a"
  by (auto simp: orelse_def)

lemma orelse_None: "orelse None b = b"
  by (simp add: orelse_def)

lemma rxm_units:
  assumes k: "\<And>st. k st \<noteq> None"
  shows "ws \<noteq> [] \<Longrightarrow> rxm False (Seq (Grp n (alts (map lit ws))) ago_tail) (MSt pv g t) k =
     (case find (\<lambda>w. unit_at w t) ws of None \<Rightarrow> None
      | Some w \<Rightarrow> k (MSt (Some CHR ''o'') ((n, w) # g)
                       (drop 3 (dropWhile is_space (drop (length w) t)))))"
proof (induction ws)
  case Nil
  then show ?case by simp
next
  case (Cons w ws)
  show ?case
  proof (cases ws)
    case Nil
    then show ?thesis using rxm_unit[of n w pv g t k] by simp
  next
    case (Cons w' ws')
    have a: "alts (map lit (w # ws)) = Alt (lit w) (alts (map lit ws))"
      using Cons by simp
    have "rxm False (Seq (Grp n (alts (map lit (w # ws)))) ago_tail) (MSt pv g t) k
        = orelse (rxm False (Seq (Grp n (lit w)) ago_tail) (MSt pv g t) k)
                 (rxm False (Seq (Grp n (alts (map lit ws))) ago_tail) (MSt pv g t) k)"
      unfolding a by simp
    also have "\<dots> = (case find (\<lambda>w. unit_at w t) (w # ws) of None \<Rightarrow> None
      | Some w \<Rightarrow> k (MSt (Some CHR ''o'') ((n, w) # g)
                       (drop 3 (dropWhile is_space (drop (length w) t)))))"
    proof -
      have 1: "rxm False (Seq (Grp n (lit w)) ago_tail) (MSt pv g t) k =
         (if unit_at w t
          then k (MSt (Some CHR ''o'') ((n, w) # g) (drop 3 (dropWhile is_space (drop (length w) t))))
          else None)"
        by (rule rxm_unit)
      have 2: "rxm False (Seq (Grp n (alts (map lit ws))) ago_tail) (MSt pv g t) k =
         (case find (\<lambda>w. unit_at w t) ws of None \<Rightarrow> None
          | Some w \<Rightarrow> k (MSt (Some CHR ''o'') ((n, w) # g)
                       (drop 3 (dropWhile is_space (drop (length w) t)))))"
        using Cons.IH Cons by blast
      show ?thesis
        by (cases "unit_at w t") (simp_all del: rxm.simps add: 1 2 orelse_Some orelse_None k)
    qed
    finally show ?thesis .
  qed
qed

lemma units_start:
  assumes "\<forall>w\<in>set ws. w \<noteq> [] \<and> \<not> is_digit (hd w) \<and> \<not> is_space (hd w)"
    and "is_digit c \<or> is_space c"
  shows "find (\<lambda>w. unit_at w (c # cs)) ws = None"
proof -
  have "\<not> unit_at w (c # cs)" if "w \<in> set ws" for w
  proof -
    from assms(1) that obtain a as where w: "w = a # as" and "\<not> is_digit a" "\<not> is_space a"
      by (cases w) auto
    with assms(2) have "a \<noteq> c" by auto
    then show ?thesis by (simp add: unit_at_def w)
  qed
  then show ?thesis by (simp add: find_None_iff)
qed

text \<open>The counted patterns as a whole, the number without and with a group.\<close>

lemma rxm_counted:
  assumes ws: "ws \<noteq> []" "\<forall>w\<in>set ws. w \<noteq> [] \<and> \<not> is_digit (hd w) \<and> \<not> is_space (hd w)"
    and k: "\<And>st. k st \<noteq> None"
  shows "rxm False (Seq (Rep True 1 Digit) (Seq (Rep True 0 Space)
            (Seq (Grp n (alts (map lit ws))) ago_tail))) (MSt pv g s) k =
     (if takeWhile is_digit s = [] then None
      else case find (\<lambda>w. unit_at w (u_of s)) ws of None \<Rightarrow> None
           | Some w \<Rightarrow> k (MSt (Some CHR ''o'') ((n, w) # g)
                            (drop 3 (dropWhile is_space (drop (length w) (u_of s))))))"
proof -
  let ?U = "Seq (Grp n (alts (map lit ws))) ago_tail"
  let ?k2 = "\<lambda>st'. rxm False ?U st' k"
  let ?k1 = "\<lambda>st'. rxm False (Seq (Rep True 0 Space) ?U) st' k"
  have U: "rxm False ?U (MSt pv' g' (c # cs)) k = None" if "is_digit c \<or> is_space c" for pv' g' c cs
    using units_start[OF ws(2) that] by (simp only: rxm_units[OF k ws(1)] option.case)
  have sp: "rxm False (Seq (Rep True 0 Space) ?U) (MSt pv' g' t) k
      = rxm False ?U (MSt (lastc pv' (takeWhile is_space t)) g' (dropWhile is_space t)) k"
    for pv' g' t
  proof -
    have "rxm False (Seq (Rep True 0 Space) ?U) (MSt pv' g' t) k = rep_greedy False Space 0 g' pv' t ?k2"
      by simp
    also have "\<dots> = ?k2 (MSt (lastc pv' (takeWhile is_space t)) g' (dropWhile is_space t))"
      by (rule rep_greedy_space) (rule U, simp)
    finally show ?thesis .
  qed
  have "rxm False (Seq (Rep True 1 Digit) (Seq (Rep True 0 Space) ?U)) (MSt pv g s) k
      = rep_greedy False Digit 1 g pv s ?k1"
    by simp
  also have "\<dots> = (if takeWhile is_digit s = [] then None
        else ?k1 (MSt (lastc pv (takeWhile is_digit s)) g (dropWhile is_digit s)))"
  proof (rule rep_greedy_digit)
    fix pv' c cs assume c: "is_digit c"
    have "rxm False (Seq (Rep True 0 Space) ?U) (MSt pv' g (c # cs)) k
        = rxm False ?U (MSt (lastc pv' (takeWhile is_space (c # cs))) g (dropWhile is_space (c # cs))) k"
      by (rule sp)
    also have "\<dots> = None" using c U[of c] by (simp add: digit_not_space)
    finally show "?k1 (MSt pv' g (c # cs)) = None" .
  qed
  also have "\<dots> = (if takeWhile is_digit s = [] then None
      else rxm False ?U (MSt (lastc (lastc pv (takeWhile is_digit s))
             (takeWhile is_space (dropWhile is_digit s))) g (u_of s)) k)"
    by (simp only: sp u_of_def)
  also have "\<dots> = (if takeWhile is_digit s = [] then None
      else case find (\<lambda>w. unit_at w (u_of s)) ws of None \<Rightarrow> None
           | Some w \<Rightarrow> k (MSt (Some CHR ''o'') ((n, w) # g)
                            (drop 3 (dropWhile is_space (drop (length w) (u_of s))))))"
    by (simp only: rxm_units[OF k ws(1)])
  finally show ?thesis .
qed


lemma rxm_counted_grp:
  assumes ws: "ws \<noteq> []" "\<forall>w\<in>set ws. w \<noteq> [] \<and> \<not> is_digit (hd w) \<and> \<not> is_space (hd w)"
    and k: "\<And>st. k st \<noteq> None"
  shows "rxm False (Seq (Grp m (Rep True 1 Digit)) (Seq (Rep True 0 Space)
            (Seq (Grp n (alts (map lit ws))) ago_tail))) (MSt pv g s) k =
     (if takeWhile is_digit s = [] then None
      else case find (\<lambda>w. unit_at w (u_of s)) ws of None \<Rightarrow> None
           | Some w \<Rightarrow> k (MSt (Some CHR ''o'') ((n, w) # (m, takeWhile is_digit s) # g)
                            (drop 3 (dropWhile is_space (drop (length w) (u_of s))))))"
proof -
  let ?U = "Seq (Grp n (alts (map lit ws))) ago_tail"
  let ?S = "Seq (Rep True 0 Space) ?U"
  let ?k2 = "\<lambda>st'. rxm False ?U st' k"
  let ?k1 = "\<lambda>st'. rxm False ?S
      (MSt (prev st') ((m, take (length s - length (rest st')) s) # grps st') (rest st')) k"
  have U: "rxm False ?U (MSt pv' g' (c # cs)) k = None" if "is_digit c \<or> is_space c" for pv' g' c cs
    using units_start[OF ws(2) that] by (simp only: rxm_units[OF k ws(1)] option.case)
  have sp: "rxm False ?S (MSt pv' g' t) k
      = rxm False ?U (MSt (lastc pv' (takeWhile is_space t)) g' (dropWhile is_space t)) k"
    for pv' g' t
  proof -
    have "rxm False ?S (MSt pv' g' t) k = rep_greedy False Space 0 g' pv' t ?k2"
      by simp
    also have "\<dots> = ?k2 (MSt (lastc pv' (takeWhile is_space t)) g' (dropWhile is_space t))"
      by (rule rep_greedy_space) (rule U, simp)
    finally show ?thesis .
  qed
  have "rxm False (Seq (Grp m (Rep True 1 Digit)) ?S) (MSt pv g s) k
      = rep_greedy False Digit 1 g pv s ?k1"
    by simp
  also have "\<dots> = (if takeWhile is_digit s = [] then None
        else ?k1 (MSt (lastc pv (takeWhile is_digit s)) g (dropWhile is_digit s)))"
  proof (rule rep_greedy_digit)
    fix pv' c cs assume c: "is_digit c"
    have "?k1 (MSt pv' g (c # cs))
        = rxm False ?S (MSt pv' ((m, take (length s - length (c # cs)) s) # g) (c # cs)) k"
      by (simp only: mst.sel)
    also have "\<dots> = rxm False ?U (MSt (lastc pv' (takeWhile is_space (c # cs)))
          ((m, take (length s - length (c # cs)) s) # g) (dropWhile is_space (c # cs))) k"
      by (rule sp)
    also have "\<dots> = None" using c U[of c] by (simp add: digit_not_space)
    finally show "?k1 (MSt pv' g (c # cs)) = None" .
  qed
  also have "\<dots> = (if takeWhile is_digit s = [] then None
      else rxm False ?S (MSt (lastc pv (takeWhile is_digit s)) ((m, takeWhile is_digit s) # g)
             (dropWhile is_digit s)) k)"
    by (simp only: mst.sel take_dropWhile)
  also have "\<dots> = (if takeWhile is_digit s = [] then None
      else rxm False ?U (MSt (lastc (lastc pv (takeWhile is_digit s))
             (takeWhile is_space (dropWhile is_digit s))) ((m, takeWhile is_digit s) # g) (u_of s)) k)"
    by (simp only: sp u_of_def)
  also have "\<dots> = (if takeWhile is_digit s = [] then None
      else case find (\<lambda>w. unit_at w (u_of s)) ws of None \<Rightarrow> None
           | Some w \<Rightarrow> k (MSt (Some CHR ''o'') ((n, w) # (m, takeWhile is_digit s) # g)
                            (drop 3 (dropWhile is_space (drop (length w) (u_of s))))))"
    by (simp only: rxm_units[OF k ws(1)])
  finally show ?thesis .
qed

text \<open>The four counted patterns of the classifier.\<close>

lemma minute_shape:
  "minute_rx = Seq (Rep True 1 Digit) (Seq (Rep True 0 Space)
     (Seq (Grp 1 (alts (map lit [''minute'', ''min'', ''minutes'', ''mins'']))) ago_tail))"
  by (simp add: minute_rx_def ago_tail_def)

lemma hour_shape:
  "hour_rx = Seq (Rep True 1 Digit) (Seq (Rep True 0 Space)
     (Seq (Grp 1 (alts (map lit [''hour'', ''hr'', ''hours'', ''hrs'']))) ago_tail))"
  by (simp add: hour_rx_def ago_tail_def)

lemma day_shape:
  "day_rx = Seq (Grp 1 (Rep True 1 Digit)) (Seq (Rep True 0 Space)
     (Seq (Grp 2 (alts (map lit [''day'', ''days'']))) ago_tail))"
  by (simp add: day_rx_def ago_tail_def)

lemma week_shape:
  "week_rx = Seq (Grp 1 (Rep True 1 Digit)) (Seq (Rep True 0 Space)
     (Seq (Grp 2 (alts (map lit [''week'', ''weeks'']))) ago_tail))"
  by (simp add: week_rx_def ago_tail_def)

lemma letters_start:
  "\<forall>w\<in>set [''minute'', ''min'', ''minutes'', ''mins'']. w \<noteq> [] \<and> \<not> is_digit (hd w) \<and> \<not> is_space (hd w)"
  "\<forall>w\<in>set [''hour'', ''hr'', ''hours'', ''hrs'']. w \<noteq> [] \<and> \<not> is_digit (hd w) \<and> \<not> is_space (hd w)"
  "\<forall>w\<in>set [''day'', ''days'']. w \<noteq> [] \<and> \<not> is_digit (hd w) \<and> \<not> is_space (hd w)"
  "\<forall>w\<in>set [''week'', ''weeks'']. w \<noteq> [] \<and> \<not> is_digit (hd w) \<and> \<not> is_space (hd w)"
  by (simp_all add: is_digit_def is_space_def code_def)

lemma counted_closed:
  assumes ws: "ws \<noteq> []" "\<forall>w\<in>set ws. w \<noteq> [] \<and> \<not> is_digit (hd w) \<and> \<not> is_space (hd w)"
  shows "match_at False (Seq (Rep True 1 Digit) (Seq (Rep True 0 Space)
            (Seq (Grp n (alts (map lit ws))) ago_tail))) None s \<noteq> None \<longleftrightarrow> counted ws s"
proof -
  let ?k = "\<lambda>st. Some \<lparr>group0 = take (length s - length (rest st)) s, groups = grps st\<rparr>"
  have k: "?k st \<noteq> None" for st by simp
  show ?thesis
    unfolding match_at_def rxm_counted[of ws ?k, OF ws k]
    by (auto simp: counted_def split: option.splits)
qed

lemma counted_grp_closed:
  assumes ws: "ws \<noteq> []" "\<forall>w\<in>set ws. w \<noteq> [] \<and> \<not> is_digit (hd w) \<and> \<not> is_space (hd w)"
  shows "match_at False (Seq (Grp 1 (Rep True 1 Digit)) (Seq (Rep True 0 Space)
            (Seq (Grp 2 (alts (map lit ws))) ago_tail))) None s \<noteq> None \<longleftrightarrow> counted ws s"
    and "match_at False (Seq (Grp 1 (Rep True 1 Digit)) (Seq (Rep True 0 Space)
            (Seq (Grp 2 (alts (map lit ws))) ago_tail))) None s = Some mo
         \<Longrightarrow> group mo 1 = takeWhile is_digit s"
proof -
  let ?k = "\<lambda>st. Some \<lparr>group0 = take (length s - length (rest st)) s, groups = grps st\<rparr>"
  have k: "?k st \<noteq> None" for st by simp
  show "match_at False (Seq (Grp 1 (Rep True 1 Digit)) (Seq (Rep True 0 Space)
            (Seq (Grp 2 (alts (map lit ws))) ago_tail))) None s \<noteq> None \<longleftrightarrow> counted ws s"
    unfolding match_at_def rxm_counted_grp[of ws ?k, OF ws k]
    by (auto simp: counted_def split: option.splits)
  show "group mo 1 = takeWhile is_digit s"
    if "match_at False (Seq (Grp 1 (Rep True 1 Digit)) (Seq (Rep True 0 Space)
            (Seq (Grp 2 (alts (map lit ws))) ago_tail))) None s = Some mo"
    using that unfolding match_at_def rxm_counted_grp[of ws ?k, OF ws k]
    by (auto simp: group_def split: option.splits if_splits)
qed

lemma minute_match:
  "re_match False minute_rx s \<noteq> None \<longleftrightarrow> counted [''minute'', ''min'', ''minutes'', ''mins''] s"
  unfolding re_match_def minute_shape by (rule counted_closed[OF _ letters_start(1)]) simp

lemma hour_match:
  "re_match False hour_rx s \<noteq> None \<longleftrightarrow> counted [''hour'', ''hr'', ''hours'', ''hrs''] s"
  unfolding re_match_def hour_shape by (rule counted_closed[OF _ letters_start(2)]) simp

lemma day_match:
  "re_match False day_rx s \<noteq> None \<longleftrightarrow> counted [''day'', ''days''] s"
  unfolding re_match_def day_shape by (rule counted_grp_closed(1)[OF _ letters_start(3)]) simp


lemma week_match:
  "re_match False week_rx s \<noteq> None \<longleftrightarrow> counted [''week'', ''weeks''] s"
  unfolding re_match_def week_shape by (rule counted_grp_closed(1)[OF _ letters_start(4)]) simp


subsection \<open>The classifier on a counted text\<close>


lemma strip_Nil [simp]: "strip [] = []"
  by (simp add: strip_def)

lemma lower_Nil [simp]: "lower [] = []"
  by (simp add: lower_def)












lemma input_nonempty: "lower (strip d) \<noteq> [] \<Longrightarrow> d \<noteq> []"
  by auto





lemma wpw_other:
  assumes "takeWhile is_digit (lower (strip d)) = []" "d \<noteq> []"
  shows "within_past_week now d =
     (if contains ''yesterday'' (lower (strip d)) then Inr True
      else try_formats now (strip d) formats)"
proof -
  let ?s = "lower (strip d)"
  have n: "\<not> counted ws ?s" for ws using assms(1) by (simp add: counted_def)
  have "re_match False minute_rx ?s = None" "re_match False hour_rx ?s = None"
    "re_match False day_rx ?s = None" "re_match False week_rx ?s = None"
    using minute_match[of ?s] hour_match[of ?s] day_match[of ?s] week_match[of ?s] n by auto
  then show ?thesis using assms(2) by (simp add: within_past_week_def Let_def)
qed

subsection \<open>Minutes, hours, days and weeks\<close>






lemma contains_set: "contains pat s \<Longrightarrow> set pat \<subseteq> set s"
proof (induction s)
  case Nil
  then show ?case by simp
next
  case (Cons c cs)
  from Cons.prems have "prefix pat (c # cs) \<or> contains pat cs" by simp
  then show ?case
  proof
    assume "prefix pat (c # cs)"
    then show ?thesis by (rule set_mono_prefix)
  next
    assume "contains pat cs"
    with Cons.IH show ?thesis by auto
  qed
qed












section \<open>Absolute dates and anchoring\<close>

subsection \<open>What a pattern can consume\<close>

lemma lang_SeqI: "lang ic r1 p1 \<Longrightarrow> lang ic r2 p2 \<Longrightarrow> lang ic (Seq r1 r2) (p1 @ p2)"
  by (auto simp: list_ex_iff intro!: bexI[of _ "length p1"])

lemma lang_SeqE:
  "lang ic (Seq r1 r2) p \<Longrightarrow> \<exists>p1 p2. p = p1 @ p2 \<and> lang ic r1 p1 \<and> lang ic r2 p2"
proof -
  assume "lang ic (Seq r1 r2) p"
  then have "\<exists>n\<in>set [0..<Suc (length p)]. lang ic r1 (take n p) \<and> lang ic r2 (drop n p)"
    by (simp only: lang.simps list_ex_iff)
  then obtain n where "lang ic r1 (take n p)" "lang ic r2 (drop n p)" by blast
  moreover have "p = take n p @ drop n p" by simp
  ultimately show ?thesis by blast
qed

lemma rep_greedy_lang:
  "rep_greedy ic cs n g pv s k = Some x \<Longrightarrow>
     \<exists>p st'. s = p @ rest st' \<and> n \<le> length p \<and> list_all (cls_ok ic cs) p \<and> k st' = Some x"
proof (induction s arbitrary: n pv)
  case Nil
  then have "n = 0" "k (MSt pv g []) = Some x" by (auto split: if_splits)
  then have "[] = [] @ rest (MSt pv g []) \<and> n \<le> length ([]::string)
     \<and> list_all (cls_ok ic cs) [] \<and> k (MSt pv g []) = Some x" by simp
  then show ?case by blast
next
  case (Cons c s)
  show ?case
  proof (cases "cls_ok ic cs c \<and> rep_greedy ic cs (n - 1) g (Some c) s k \<noteq> None")
    case True
    with Cons.prems have "rep_greedy ic cs (n - 1) g (Some c) s k = Some x" by auto
    from Cons.IH[OF this] obtain p st' where
      a: "s = p @ rest st'" "n - 1 \<le> length p" "list_all (cls_ok ic cs) p" "k st' = Some x" by blast
    from a True have "c # s = (c # p) @ rest st' \<and> n \<le> length (c # p)
       \<and> list_all (cls_ok ic cs) (c # p) \<and> k st' = Some x" by auto
    then show ?thesis by blast
  next
    case False
    with Cons.prems have "n = 0" "k (MSt pv g (c # s)) = Some x"
      by (auto split: if_splits option.splits)
    then have "c # s = [] @ rest (MSt pv g (c # s)) \<and> n \<le> length ([]::string)
       \<and> list_all (cls_ok ic cs) [] \<and> k (MSt pv g (c # s)) = Some x" by simp
    then show ?thesis by blast
  qed
qed

lemma rep_lazy_lang:
  "rep_lazy ic cs n g pv s k = Some x \<Longrightarrow>
     \<exists>p st'. s = p @ rest st' \<and> n \<le> length p \<and> list_all (cls_ok ic cs) p \<and> k st' = Some x"
proof (induction s arbitrary: n pv)
  case Nil
  then have "n = 0" "k (MSt pv g []) = Some x" by (auto split: if_splits)
  then have "[] = [] @ rest (MSt pv g []) \<and> n \<le> length ([]::string)
     \<and> list_all (cls_ok ic cs) [] \<and> k (MSt pv g []) = Some x" by simp
  then show ?case by blast
next
  case (Cons c s)
  show ?case
  proof (cases "n = 0 \<and> k (MSt pv g (c # s)) \<noteq> None")
    case True
    with Cons.prems have "n = 0" "k (MSt pv g (c # s)) = Some x" by auto
    then have "c # s = [] @ rest (MSt pv g (c # s)) \<and> n \<le> length ([]::string)
       \<and> list_all (cls_ok ic cs) [] \<and> k (MSt pv g (c # s)) = Some x" by simp
    then show ?thesis by blast
  next
    case False
    with Cons.prems have c: "cls_ok ic cs c" and "rep_lazy ic cs (n - 1) g (Some c) s k = Some x"
      by (auto split: if_splits option.splits)
    from Cons.IH[OF this(2)] obtain p st' where
      a: "s = p @ rest st'" "n - 1 \<le> length p" "list_all (cls_ok ic cs) p" "k st' = Some x" by blast
    from a c have "c # s = (c # p) @ rest st' \<and> n \<le> length (c # p)
       \<and> list_all (cls_ok ic cs) (c # p) \<and> k st' = Some x" by auto
    then show ?thesis by blast
  qed
qed

lemma rxm_lang:
  "rxm ic r st k = Some x \<Longrightarrow> \<exists>p st'. rest st = p @ rest st' \<and> lang ic r p \<and> k st' = Some x"
proof (induction r arbitrary: st k)
  case Eps
  then have "rest st = [] @ rest st \<and> lang ic Eps [] \<and> k st = Some x" by simp
  then show ?case by blast
next
  case (Chr a)
  then obtain c cs where a: "rest st = c # cs" "chr_eq ic a c" "k (MSt (Some c) (grps st) cs) = Some x"
    by (auto split: list.splits if_splits)
  then have "rest st = [c] @ rest (MSt (Some c) (grps st) cs) \<and> lang ic (Chr a) [c]
     \<and> k (MSt (Some c) (grps st) cs) = Some x" by simp
  then show ?case by blast
next
  case (Cls p)
  then obtain c cs where a: "rest st = c # cs" "cls_ok ic p c" "k (MSt (Some c) (grps st) cs) = Some x"
    by (auto split: list.splits if_splits)
  then have "rest st = [c] @ rest (MSt (Some c) (grps st) cs) \<and> lang ic (Cls p) [c]
     \<and> k (MSt (Some c) (grps st) cs) = Some x" by simp
  then show ?case by blast
next
  case (Seq r1 r2)
  from Seq.prems have "rxm ic r1 st (\<lambda>st'. rxm ic r2 st' k) = Some x" by simp
  from Seq.IH(1)[OF this] obtain p1 st1
    where a: "rest st = p1 @ rest st1" "lang ic r1 p1" "rxm ic r2 st1 k = Some x" by blast
  from Seq.IH(2)[OF a(3)] obtain p2 st2
    where b: "rest st1 = p2 @ rest st2" "lang ic r2 p2" "k st2 = Some x" by blast
  from a b lang_SeqI[OF a(2) b(2)]
  have "rest st = (p1 @ p2) @ rest st2 \<and> lang ic (Seq r1 r2) (p1 @ p2) \<and> k st2 = Some x" by simp
  then show ?case by blast
next
  case (Alt r1 r2)
  from Alt.prems have "rxm ic r1 st k = Some x \<or> rxm ic r2 st k = Some x"
    by (auto simp: orelse_def split: option.splits)
  then show ?case
  proof
    assume "rxm ic r1 st k = Some x"
    from Alt.IH(1)[OF this] show ?thesis by auto
  next
    assume "rxm ic r2 st k = Some x"
    from Alt.IH(2)[OF this] show ?thesis by auto
  qed
next
  case (Rep gr n p)
  then show ?case
    by (cases gr) (auto dest: rep_greedy_lang rep_lazy_lang)
next
  case (Opt r)
  from Opt.prems have "rxm ic r st k = Some x \<or> k st = Some x"
    by (auto simp: orelse_def split: option.splits)
  then show ?case
  proof
    assume "rxm ic r st k = Some x"
    from Opt.IH[OF this] show ?thesis by auto
  next
    assume "k st = Some x"
    then have "rest st = [] @ rest st \<and> lang ic (Opt r) [] \<and> k st = Some x" by simp
    then show ?thesis by blast
  qed
next
  case (Grp n r)
  from Grp.prems have "rxm ic r st (\<lambda>st'. k (MSt (prev st')
        ((n, take (length (rest st) - length (rest st')) (rest st)) # grps st') (rest st'))) = Some x"
    by simp
  from Grp.IH[OF this] obtain p st' where
    a: "rest st = p @ rest st'" "lang ic r p"
      "k (MSt (prev st') ((n, take (length (rest st) - length (rest st')) (rest st)) # grps st') (rest st')) = Some x"
    by blast
  let ?st = "MSt (prev st') ((n, take (length (rest st) - length (rest st')) (rest st)) # grps st') (rest st')"
  from a have "rest st = p @ rest ?st \<and> lang ic (Grp n r) p \<and> k ?st = Some x" by simp
  then show ?case by blast
next
  case (Ref n)
  then obtain g where a: "map_of (grps st) n = Some g"
    "k (MSt (if g = [] then prev st else Some (rest st ! (length g - 1))) (grps st)
                    (drop (length g) (rest st))) = Some x"
    by (auto split: option.splits if_splits)
  let ?st = "MSt (if g = [] then prev st else Some (rest st ! (length g - 1))) (grps st)
                    (drop (length g) (rest st))"
  from a have "rest st = take (length g) (rest st) @ rest ?st
     \<and> lang ic (Ref n) (take (length g) (rest st)) \<and> k ?st = Some x" by simp
  then show ?case by blast
next
  case Wb
  then have "rest st = [] @ rest st \<and> lang ic Wb [] \<and> k st = Some x" by (simp split: if_splits)
  then show ?case by blast
qed

lemma lang_may: "lang ic r p \<Longrightarrow> list_all (may ic r) p"
proof (induction r arbitrary: p)
  case (Seq r1 r2)
  from lang_SeqE[OF Seq.prems] obtain p1 p2 where
    a: "p = p1 @ p2" "lang ic r1 p1" "lang ic r2 p2" by blast
  from Seq.IH(1)[OF a(2)] Seq.IH(2)[OF a(3)] a(1) show ?case
    by (auto simp: list_all_iff)
next
  case (Chr a)
  then show ?case by (auto split: list.splits)
next
  case (Cls cs)
  then show ?case by (auto split: list.splits)
next
  case (Alt r1 r2)
  then show ?case by (auto simp: list_all_iff)
qed (auto simp: list_all_iff)

lemma match_full_lang:
  assumes "re_match ic r data = Some m" "length data = length (group0 m)"
  shows "lang ic r data"
proof -
  let ?k = "\<lambda>st. Some \<lparr>group0 = take (length data - length (rest st)) data, groups = grps st\<rparr>"
  from assms(1) have "rxm ic r (MSt None [] data) ?k = Some m"
    by (simp add: re_match_def match_at_def)
  from rxm_lang[OF this] obtain p st' where
    a: "data = p @ rest st'" "lang ic r p" "?k st' = Some m" by auto
  from a(3) have "group0 m = take (length data - length (rest st')) data" by auto
  with a(1) have "group0 m = p" by simp
  with assms(2) a(1) have "length (p @ rest st') = length p" by simp
  then have "rest st' = []" by simp
  with a show ?thesis by simp
qed

subsection \<open>The texts that \<open>strptime\<close> accepts\<close>

lemma format_rx_formats:
  "format_rx ''%b %d, %Y'' = Seq (directive CHR ''b'') date_tail"
  "format_rx ''%B %d, %Y'' = Seq (directive CHR ''B'') date_tail"
  "format_rx ''%b. %d, %Y'' = Seq (directive CHR ''b'') (Seq (Chr CHR ''.'') date_tail)"
  by (simp_all add: format_rx_def date_tail_def is_space_def code_def)

lemma lang_alts: "rs \<noteq> [] \<Longrightarrow> lang ic (alts rs) p \<Longrightarrow> \<exists>r\<in>set rs. lang ic r p"
  by (induction rs rule: alts.induct) auto

lemma lang_lit: "lang True (lit s) p \<Longrightarrow> lower p = lower s"
proof (induction s arbitrary: p)
  case Nil
  then show ?case by (simp add: lit_def)
next
  case (Cons c s)
  from Cons.prems have "lang True (Seq (Chr c) (lit s)) p" by (simp add: lit_def)
  from lang_SeqE[OF this] obtain p1 p2 where
    a: "p = p1 @ p2" "lang True (Chr c) p1" "lang True (lit s) p2" by blast
  from a(2) obtain x where x: "p1 = [x]" "chr_eq True c x"
    by (auto split: list.splits)
  from Cons.IH[OF a(3)] a(1) x show ?case by (simp add: lower_def chr_eq_def)
qed

lemma set_insert_by_len: "set (insert_by_len x ys) = insert x (set ys)"
  by (induction ys) auto

lemma set_by_len: "set (foldr insert_by_len xs []) = set xs"
  by (induction xs) (simp_all add: set_insert_by_len)

lemma lang_seq_to_re:
  assumes "lang True (seq_to_re names) p" "\<exists>n\<in>set names. n \<noteq> []"
  shows "\<exists>n\<in>set names. n \<noteq> [] \<and> lower p = lower n"
proof -
  let ?ns = "foldr insert_by_len (filter (\<lambda>n. n \<noteq> []) names) []"
  from assms(2) have "set ?ns \<noteq> {}" unfolding set_by_len by auto
  then have ne: "map lit ?ns \<noteq> []" by auto
  from assms(1) have "lang True (alts (map lit ?ns)) p" by (simp add: seq_to_re_def)
  from lang_alts[OF ne this] obtain n where n: "n \<in> set ?ns" "lang True (lit n) p" by auto
  from n(1) have "n \<in> set names" "n \<noteq> []" unfolding set_by_len by auto
  with lang_lit[OF n(2)] show ?thesis by blast
qed

lemma names_ok:
  "list_all (\<lambda>n. n = [] \<or> name_ok (lower n)) a_month"
  "list_all (\<lambda>n. n = [] \<or> name_ok (lower n)) f_month"
  by code_simp+

lemma lang_month:
  assumes "lang True (directive CHR ''b'') p \<or> lang True (directive CHR ''B'') p"
  shows "name_ok (lower p)"
proof -
  have e: "\<exists>n\<in>set a_month. n \<noteq> []" "\<exists>n\<in>set f_month. n \<noteq> []"
    by (simp_all add: a_month_def f_month_def)
  from assms have "lang True (seq_to_re a_month) p \<or> lang True (seq_to_re f_month) p"
    by (simp add: directive_def)
  then show ?thesis
  proof
    assume "lang True (seq_to_re a_month) p"
    from lang_seq_to_re[OF this e(1)] names_ok(1) show ?thesis by (auto simp: list_all_iff)
  next
    assume "lang True (seq_to_re f_month) p"
    from lang_seq_to_re[OF this e(2)] names_ok(2) show ?thesis by (auto simp: list_all_iff)
  qed
qed

lemma lower_chr_marks: "lower_chr CHR '','' = CHR '',''" "lower_chr CHR ''.'' = CHR ''.''"
  "lower_chr CHR ''0'' = CHR ''0''" "lower_chr CHR ''3'' = CHR ''3''" "lower_chr CHR '' '' = CHR '' ''"
  by (simp_all add: lower_chr_def is_upper_ascii_def code_def)

lemma may_date_tail:
  "may True (Seq (Chr CHR ''.'') date_tail) c \<Longrightarrow> \<not> is_lower_ascii (lower_chr c)"
proof -
  assume a: "may True (Seq (Chr CHR ''.'') date_tail) c"
  define x where "x = lower_chr c"
  from a have "x = CHR ''.'' \<or> x = CHR '','' \<or> x = CHR ''0'' \<or> x = CHR ''3'' \<or> x = CHR '' ''
     \<or> is_space x \<or> is_digit x \<or> (code CHR ''0'' \<le> code x \<and> code x \<le> code CHR ''1'')
     \<or> (code CHR ''1'' \<le> code x \<and> code x \<le> code CHR ''2'')
     \<or> (code CHR ''1'' \<le> code x \<and> code x \<le> code CHR ''9'')"
    unfolding x_def
    by (auto simp: date_tail_def directive_def chr_eq_def cls_ok_def lower_chr_marks)
  then show "\<not> is_lower_ascii x"
    by (auto simp: is_lower_ascii_def is_space_def is_digit_def code_def)
qed

lemma prefix_letters:
  assumes "prefix pat (a @ b)" "list_all L pat" "list_all (\<lambda>x. \<not> L x) b"
  shows "prefix pat a"
proof -
  from assms(1) have "prefix pat a \<or> (\<exists>us. pat = a @ us \<and> prefix us b)"
    by (simp add: prefix_append)
  then show ?thesis
  proof
    assume "\<exists>us. pat = a @ us \<and> prefix us b"
    then obtain us where us: "pat = a @ us" "prefix us b" by blast
    show ?thesis
    proof (cases us)
      case Nil
      with us show ?thesis by simp
    next
      case (Cons u us')
      with us(2) have "u \<in> set b" by (auto simp: prefix_def)
      moreover from Cons us(1) have "u \<in> set pat" by simp
      ultimately show ?thesis using assms(2,3) by (auto simp: list_all_iff)
    qed
  qed
qed

lemma contains_letters:
  assumes "pat \<noteq> []" "list_all L pat" "list_all (\<lambda>x. \<not> L x) b" "contains pat (a @ b)"
  shows "contains pat a"
  using assms(4)
proof (induction a)
  case Nil
  then have "set pat \<subseteq> set b" using contains_set by simp
  with assms(1) have "hd pat \<in> set b" "hd pat \<in> set pat" by auto
  with assms(2,3) show ?case by (auto simp: list_all_iff)
next
  case (Cons c a)
  from Cons.prems have "prefix pat ((c # a) @ b) \<or> contains pat (a @ b)" by simp
  then show ?case
  proof
    assume "prefix pat ((c # a) @ b)"
    from prefix_letters[OF this assms(2,3)] show ?thesis by simp
  next
    assume "contains pat (a @ b)"
    from Cons.IH[OF this] show ?thesis by simp
  qed
qed

lemma strptime_lang:
  "strptime data fmt = Inr w \<Longrightarrow> lang True (format_rx fmt) data"
proof -
  assume a: "strptime data fmt = Inr w"
  then obtain m where m: "re_match True (format_rx fmt) data = Some m" "length data = length (group0 m)"
    by (auto simp: strptime_def split: option.splits if_splits)
  then show ?thesis by (rule match_full_lang)
qed

lemma letters_yesterday: "list_all is_lower_ascii ''yesterday''" "list_all is_lower_ascii ''ago''"
  by (simp_all add: is_lower_ascii_def code_def)

lemma strptime_shape:
  assumes "strptime data fmt = Inr w" "fmt \<in> set formats"
  shows "data \<noteq> []" "takeWhile is_digit (lower data) = []"
    "\<not> contains ''yesterday'' (lower data)" "\<not> contains ''ago'' (lower data)"
proof -
  note L = strptime_lang[OF assms(1)]
  from assms(2) have "fmt = ''%b %d, %Y'' \<or> fmt = ''%B %d, %Y'' \<or> fmt = ''%b. %d, %Y''"
    by (simp add: formats_def)
  then have "lang True (Seq (directive CHR ''b'') date_tail) data
     \<or> lang True (Seq (directive CHR ''B'') date_tail) data
     \<or> lang True (Seq (directive CHR ''b'') (Seq (Chr CHR ''.'') date_tail)) data"
    using L by (auto simp only: format_rx_formats)
  then have "\<exists>r1 r2. lang True (Seq r1 r2) data
     \<and> (r1 = directive CHR ''b'' \<or> r1 = directive CHR ''B'')
     \<and> (r2 = date_tail \<or> r2 = Seq (Chr CHR ''.'') date_tail)"
    by blast
  then obtain r1 r2 where r: "lang True (Seq r1 r2) data"
    "r1 = directive CHR ''b'' \<or> r1 = directive CHR ''B''"
    "r2 = date_tail \<or> r2 = Seq (Chr CHR ''.'') date_tail" by blast
  from lang_SeqE[OF r(1)] obtain p q where
    pq: "data = p @ q" "lang True r1 p" "lang True r2 q" by blast
  from pq(2) r(2) have ok: "name_ok (lower p)" using lang_month[of p] by blast
  from lang_may[OF pq(3)] r(3) have "list_all (may True (Seq (Chr CHR ''.'') date_tail)) q"
    by (auto simp: list_all_iff)
  then have q: "list_all (\<lambda>x. \<not> is_lower_ascii x) (lower q)"
    using may_date_tail by (auto simp: list_all_iff lower_def)
  have l: "lower data = lower p @ lower q" using pq(1) by (simp add: lower_def)
  from ok have ne: "lower p \<noteq> []" by (simp add: name_ok_def)
  then show "data \<noteq> []" using pq(1) by (auto simp: lower_def)
  from ok ne show "takeWhile is_digit (lower data) = []"
    unfolding l by (cases "lower p") (simp_all add: name_ok_def)
  show "\<not> contains ''yesterday'' (lower data)"
  proof
    assume "contains ''yesterday'' (lower data)"
    then have "contains ''yesterday'' (lower p @ lower q)" by (simp only: l)
    from contains_letters[OF _ letters_yesterday(1) q this] ok show False
      by (simp add: name_ok_def)
  qed
  show "\<not> contains ''ago'' (lower data)"
  proof
    assume "contains ''ago'' (lower data)"
    then have "contains ''ago'' (lower p @ lower q)" by (simp only: l)
    from contains_letters[OF _ letters_yesterday(2) q this] ok show False
      by (simp add: name_ok_def)
  qed
qed

lemma strptime_midnight:
  "strptime data fmt = Inr w \<Longrightarrow> hour w = 0 \<and> minute w = 0 \<and> second w = 0 \<and> microsecond w = 0"
  by (auto simp: strptime_def make_date_def split: option.splits if_splits sum.splits)

lemma sub_days_midnight:
  assumes "valid_time now" "hour w = 0 \<and> minute w = 0 \<and> second w = 0 \<and> microsecond w = 0"
  shows "sub_days now w = toordinal now - toordinal w"
proof -
  let ?secs = "second now + minute now * 60 + hour now * 3600"
  from assms(1) have "0 \<le> ?secs" "?secs < 86400" "microsecond now div 1000000 = 0"
    by (auto simp: valid_time_def)
  then have "(?secs + microsecond now div 1000000) div 86400 = 0" by simp
  with assms(2) show ?thesis by (simp add: sub_days_def Let_def)
qed

lemma try_formats_first:
  "list_all (\<lambda>f. strptime data f = Inl ValueError) pre \<Longrightarrow> strptime data fmt = Inr w \<Longrightarrow>
     try_formats now data (pre @ fmt # post) = Inr (sub_days now w \<le> 7)"
  by (induction pre) simp_all


lemma wpw_date:
  assumes "strptime (strip d) fmt = Inr w" "fmt \<in> set formats"
  shows "within_past_week now d = try_formats now (strip d) formats"
proof -
  note s = strptime_shape[OF assms]
  from s(1) have "d \<noteq> []" by auto
  from wpw_other[OF s(2) this, of now] s(3) show ?thesis by simp
qed


subsection \<open>The classifier on dates and on prefixed texts\<close>





text \<open>
  Claim C5. Let the trimmed input parse under one of the three formats, tried in the
  order of the program, all formats before it failing. Then \<open>within_past_week\<close> returns
  whether \<open>(now - when).days \<le> 7\<close> for the date \<open>when\<close> of that first parse; no counted
  pattern and no \<open>yesterday\<close> comes in between, and no later format is tried. For a clock
  reading \<open>now\<close> the whole-day difference is the difference of the two day numbers, the
  parsed date being at midnight: a date 7 days back gives \<open>True\<close>, a date 8 days back
  \<open>False\<close>, and a date after today \<open>True\<close>, the difference being negative.
\<close>

theorem absolute_date_within_seven:
  assumes "formats = pre @ fmt # post"
    and "list_all (\<lambda>f. strptime (strip d) f = Inl ValueError) pre"
    and "strptime (strip d) fmt = Inr w"
  shows "within_past_week now d = Inr (sub_days now w \<le> 7)
     \<and> (valid_time now \<longrightarrow>
          sub_days now w = toordinal now - toordinal w
        \<and> (toordinal now - toordinal w = 7 \<longrightarrow> within_past_week now d = Inr True)
        \<and> (toordinal now - toordinal w = 8 \<longrightarrow> within_past_week now d = Inr False)
        \<and> (toordinal now < toordinal w \<longrightarrow> within_past_week now d = Inr True))"
proof -
  have "fmt \<in> set (pre @ fmt # post)" by simp
  then have f: "fmt \<in> set formats" unfolding assms(1)[symmetric] .
  have r: "within_past_week now d = Inr (sub_days now w \<le> 7)"
    using wpw_date[OF assms(3) f, of now] try_formats_first[OF assms(2,3), of now post]
    unfolding assms(1)[symmetric] by simp
  have s: "sub_days now w = toordinal now - toordinal w" if "valid_time now"
    by (rule sub_days_midnight[OF that strptime_midnight[OF assms(3)]])
  from r s show ?thesis by auto
qed

theorem absolute_date_within_seven_witness:
  "strptime (strip ''Oct 4, 2025'') ''%b %d, %Y''
      = Inr \<lparr>year = 2025, month = 10, day = 4, hour = 0, minute = 0, second = 0, microsecond = 0\<rparr>
   \<and> within_past_week \<lparr>year = 2025, month = 10, day = 11, hour = 15, minute = 30, second = 0, microsecond = 0\<rparr>
        ''Oct 4, 2025'' = Inr True
   \<and> within_past_week \<lparr>year = 2025, month = 10, day = 11, hour = 15, minute = 30, second = 0, microsecond = 0\<rparr>
        ''Oct 3, 2025'' = Inr False
   \<and> strptime (strip ''October 4, 2025'') ''%b %d, %Y'' = Inl ValueError
   \<and> within_past_week \<lparr>year = 2025, month = 10, day = 11, hour = 15, minute = 30, second = 0, microsecond = 0\<rparr>
        ''October 4, 2025'' = Inr True
   \<and> within_past_week \<lparr>year = 2025, month = 10, day = 11, hour = 15, minute = 30, second = 0, microsecond = 0\<rparr>
        ''Dec. 25, 2025'' = Inr True"
proof -
  let ?now = "\<lparr>year = 2025, month = 10, day = 11, hour = 15, minute = 30, second = 0, microsecond = 0\<rparr>"
  let ?w1 = "\<lparr>year = 2025, month = 10, day = 4, hour = 0, minute = 0, second = 0, microsecond = 0\<rparr>"
  let ?w2 = "\<lparr>year = 2025, month = 10, day = 3, hour = 0, minute = 0, second = 0, microsecond = 0\<rparr>"
  let ?w3 = "\<lparr>year = 2025, month = 12, day = 25, hour = 0, minute = 0, second = 0, microsecond = 0\<rparr>"
  have f: "formats = [] @ ''%b %d, %Y'' # [''%B %d, %Y'', ''%b. %d, %Y'']"
    "formats = [''%b %d, %Y''] @ ''%B %d, %Y'' # [''%b. %d, %Y'']"
    "formats = [''%b %d, %Y'', ''%B %d, %Y''] @ ''%b. %d, %Y'' # []"
    by (simp_all add: formats_def)
  have p1: "strptime (strip ''Oct 4, 2025'') ''%b %d, %Y'' = Inr ?w1" by code_simp
  have p2: "strptime (strip ''Oct 3, 2025'') ''%b %d, %Y'' = Inr ?w2" by code_simp
  have p3: "strptime (strip ''October 4, 2025'') ''%B %d, %Y'' = Inr ?w1" by code_simp
  have n3: "strptime (strip ''October 4, 2025'') ''%b %d, %Y'' = Inl ValueError" by code_simp
  have p4: "strptime (strip ''Dec. 25, 2025'') ''%b. %d, %Y'' = Inr ?w3" by code_simp
  have n4: "strptime (strip ''Dec. 25, 2025'') ''%b %d, %Y'' = Inl ValueError"
    "strptime (strip ''Dec. 25, 2025'') ''%B %d, %Y'' = Inl ValueError" by code_simp+
  have v: "valid_time ?now" by (simp add: valid_time_def)
  have o: "toordinal ?now - toordinal ?w1 = 7" "toordinal ?now - toordinal ?w2 = 8"
    "toordinal ?now < toordinal ?w3" by code_simp+
  have e: "list_all (\<lambda>f. strptime (strip ''Oct 4, 2025'') f = Inl ValueError) []"
    "list_all (\<lambda>f. strptime (strip ''Oct 3, 2025'') f = Inl ValueError) []" by simp_all
  have e3: "list_all (\<lambda>f. strptime (strip ''October 4, 2025'') f = Inl ValueError) [''%b %d, %Y'']"
    using n3 by simp
  have e4: "list_all (\<lambda>f. strptime (strip ''Dec. 25, 2025'') f = Inl ValueError) [''%b %d, %Y'', ''%B %d, %Y'']"
    using n4 by simp
  from absolute_date_within_seven[OF f(1) e(1) p1, of ?now] v o(1)
  have 1: "within_past_week ?now ''Oct 4, 2025'' = Inr True" by blast
  from absolute_date_within_seven[OF f(1) e(2) p2, of ?now] v o(2)
  have 2: "within_past_week ?now ''Oct 3, 2025'' = Inr False" by blast
  from absolute_date_within_seven[OF f(2) e3 p3, of ?now] v o(1)
  have 3: "within_past_week ?now ''October 4, 2025'' = Inr True" by blast
  from absolute_date_within_seven[OF f(3) e4 p4, of ?now] v o(3)
  have 4: "within_past_week ?now ''Dec. 25, 2025'' = Inr True" by blast
  from p1 1 2 n3 3 4 show ?thesis by blast
qed



end
